theory Spec2Isabelle
  imports Main "HOL-Library.Monad_Syntax"
begin

section \<open>Data model (lib/fen.ts)\<close>

text \<open>
  A piece is the one-character string the source stores in a board cell. The value of a
  cell is \<open>Some (Some p)\<close> for the piece \<open>p\<close>, \<open>Some None\<close> for \<open>null\<close> and \<open>None\<close> for
  \<open>undefined\<close>. The declared cell type is \<open>PieceChar | null\<close> and \<open>parseFen\<close> builds no
  other cell, but \<open>applyMove\<close> stores \<open>undefined\<close> in the board it returns when its
  origin is no stored cell, and a row that is written beyond its end is filled up with
  holes, which every read, copy and iteration of the program takes as \<open>undefined\<close>. A
  side is the string \<open>''w''\<close> (red, upper case, moving first) or \<open>''b''\<close>; the source's
  casts do not check either, so both stay texts here. Texts are lists of 8-bit
  characters. Row 0 is the top of the board, column 0 is file a.
\<close>

type_synonym PieceChar = char
type_synonym Side = string
type_synonym Cell = "PieceChar option option"
type_synonym Board = "Cell list list"

record Square =
  row :: int
  col :: int

record Position =
  board :: Board
  turn :: Side

record Move =
  mv_from :: Square
  mv_to :: Square

definition STARTING_FEN :: string where
  "STARTING_FEN = ''rnbakabnr/9/1c5c1/p1p1p1p1p/9/9/P1P1P1P1P/1C5C1/9/RNBAKABNR w - - 0 1''"

definition FILES :: string where
  "FILES = ''abcdefghi''"

subsection \<open>Text primitives of the host language\<close>

text \<open>\<open>s.split(sep)\<close> for a one-character separator: at least one part is returned.\<close>

fun js_split :: "char \<Rightarrow> string \<Rightarrow> string list" where
  "js_split sep [] = [[]]"
| "js_split sep (ch # rest) =
     (if ch = sep then [] # js_split sep rest
      else (case js_split sep rest of
              [] \<Rightarrow> [[ch]]
            | part # parts \<Rightarrow> (ch # part) # parts))"

text \<open>\<open>parts.join(sep)\<close>.\<close>

fun js_join :: "char \<Rightarrow> string list \<Rightarrow> string" where
  "js_join sep [] = []"
| "js_join sep [part] = part"
| "js_join sep (part # next # parts) = part @ sep # js_join sep (next # parts)"

text \<open>The decimal text of a count, as string concatenation with a number produces it.\<close>

fun decimal :: "nat \<Rightarrow> string" where
  "decimal n = (if n < 10 then [char_of (48 + n)]
                else decimal (n div 10) @ [char_of (48 + n mod 10)])"

declare decimal.simps [simp del]

text \<open>\<open>ch >= '1' && ch <= '9'\<close> and \<open>parseInt(ch)\<close> on such a character.\<close>

definition isRunDigit :: "char \<Rightarrow> bool" where
  "isRunDigit ch \<longleftrightarrow> (49::nat) \<le> of_char ch \<and> of_char ch \<le> (57::nat)"

definition parseInt :: "char \<Rightarrow> nat" where
  "parseInt ch = of_char ch - 48"

definition isDigit :: "char \<Rightarrow> bool" where
  "isDigit ch \<longleftrightarrow> (48::nat) \<le> of_char ch \<and> of_char ch \<le> (57::nat)"

text \<open>
  \<open>parseInt(s[i])\<close> and \<open>s.charCodeAt(i)\<close>: \<open>None\<close> is the number NaN (no character at
  that index, or not a digit).
\<close>

definition parseIntAt :: "string \<Rightarrow> nat \<Rightarrow> int option" where
  "parseIntAt s i =
     (if i < length s \<and> isDigit (s ! i) then Some (int (of_char (s ! i)) - 48) else None)"

definition charCodeAt :: "string \<Rightarrow> nat \<Rightarrow> int option" where
  "charCodeAt s i = (if i < length s then Some (int (of_char (s ! i))) else None)"

fun indexOf :: "string \<Rightarrow> char \<Rightarrow> int" where
  "indexOf [] ch = -1"
| "indexOf (x # xs) ch =
     (if x = ch then 0 else (let i = indexOf xs ch in if i < 0 then -1 else i + 1))"

text \<open>
  \<open>s.toUpperCase()\<close> and \<open>s.toLowerCase()\<close> on a one-character string of the 8-bit
  range, by character code. The upper case of three characters lies outside that range
  or has two characters (181 gives 924, 223 gives 83 83, 255 gives 376), so the result
  of \<open>toUpperCase\<close> is a list of code points.
\<close>

definition toUpperCase :: "char \<Rightarrow> nat list" where
  "toUpperCase ch =
     (let n = of_char ch in
      if 97 \<le> n \<and> n \<le> 122 then [n - 32]
      else if n = 181 then [924]
      else if n = 223 then [83, 83]
      else if 224 \<le> n \<and> n \<le> 254 \<and> n \<noteq> 247 then [n - 32]
      else if n = 255 then [376]
      else [n])"

definition toLowerCase :: "char \<Rightarrow> char" where
  "toLowerCase ch =
     (let n = of_char ch :: nat in
      if (65 \<le> n \<and> n \<le> 90) \<or> (192 \<le> n \<and> n \<le> 222 \<and> n \<noteq> 215)
      then char_of (n + 32) else ch)"

subsection \<open>Position codec: parseFen and toFen\<close>

text \<open>
  The inner loop of \<open>parseFen\<close>: a character from 1 to 9 pushes that many empty cells,
  any other character is pushed as a piece, unchecked.
\<close>

fun parseRank :: "string \<Rightarrow> Cell list" where
  "parseRank [] = []"
| "parseRank (ch # rest) =
     (if isRunDigit ch then replicate (parseInt ch) (Some None) else [Some (Some ch)])
     @ parseRank rest"

text \<open>
  \<open>parseFen\<close> has no \<open>throw\<close> and no read that can fail: it returns a Position for
  every text. The side is \<open>parts[1] || 'w'\<close>.
\<close>

definition parseFen :: "string \<Rightarrow> Position" where
  "parseFen fen0 =
     (let parts = js_split CHR '' '' fen0;
          ranks = js_split CHR ''/'' (parts ! 0)
      in \<lparr>board = map parseRank ranks,
          turn = (if 1 < length parts \<and> parts ! 1 \<noteq> [] then parts ! 1 else ''w'')\<rparr>)"

text \<open>
  The inner loop of \<open>toFen\<close> over one row, with its two accumulators. A cell that is
  not \<open>null\<close> is appended by \<open>rank += cell\<close>, which prints \<open>undefined\<close> as that word.
\<close>

fun encodeRow :: "Cell list \<Rightarrow> string \<Rightarrow> nat \<Rightarrow> string" where
  "encodeRow [] rank emptyRun = (if 0 < emptyRun then rank @ decimal emptyRun else rank)"
| "encodeRow (Some None # cells) rank emptyRun = encodeRow cells rank (emptyRun + 1)"
| "encodeRow (Some (Some cell) # cells) rank emptyRun =
     encodeRow cells ((if 0 < emptyRun then rank @ decimal emptyRun else rank) @ [cell]) 0"
| "encodeRow (None # cells) rank emptyRun =
     encodeRow cells ((if 0 < emptyRun then rank @ decimal emptyRun else rank) @ ''undefined'') 0"

definition toFen :: "Position \<Rightarrow> string" where
  "toFen pos =
     js_join CHR ''/'' (map (\<lambda>r. encodeRow r [] 0) (board pos))
     @ '' '' @ turn pos @ '' - - 0 1''"

subsection \<open>Move tokens\<close>

text \<open>
  \<open>uciToSquare\<close>: the column is \<open>FILES.indexOf(uci[0])\<close>, which is -1 for a character
  that is no file letter and for a missing one; the row is \<open>9 - parseInt(uci[1])\<close>.
  \<open>None\<close> stands for a square whose row is NaN: every board access with such a row
  raises a TypeError in \<open>applyMove\<close>.
\<close>

definition uciToSquare :: "string \<Rightarrow> Square option" where
  "uciToSquare u =
     do {
       rank \<leftarrow> parseIntAt u 1;
       Some \<lparr>row = 9 - rank, col = (if u = [] then -1 else indexOf FILES (u ! 0))\<rparr>
     }"

definition parseUciMove :: "string \<Rightarrow> (Square \<times> Square) option" where
  "parseUciMove move =
     do {
       from \<leftarrow> uciToSquare (take 2 move);
       to \<leftarrow> uciToSquare (take 2 (drop 2 move));
       Some (from, to)
     }"

subsection \<open>Board reads and writes\<close>

text \<open>
  \<open>board[r][c]\<close>. When the board has no row \<open>r\<close> the read raises a TypeError; \<open>hasRow\<close>
  is the test for that. When it has the row, the read gives the stored cell, or
  \<open>undefined\<close> for a column the row does not store, and so does \<open>cellAt\<close>. Most uses
  hand the value to \<open>pieceColor\<close>, which raises a TypeError on \<open>undefined\<close>: they take
  \<open>None\<close> as the error, with or without the row. The uses that only compare the value
  with \<open>null\<close> or with a piece go on after reading \<open>undefined\<close>, and test \<open>hasRow\<close>
  first. As a result of the functions of the rule engine, \<open>None\<close> is a raised TypeError.
\<close>

definition hasRow :: "Board \<Rightarrow> int \<Rightarrow> bool" where
  "hasRow b r \<longleftrightarrow> 0 \<le> r \<and> r < int (length b)"

definition cellAt :: "Board \<Rightarrow> int \<Rightarrow> int \<Rightarrow> Cell" where
  "cellAt b r c =
     (if 0 \<le> r \<and> r < int (length b) \<and> 0 \<le> c \<and> c < int (length (b ! nat r))
      then b ! nat r ! nat c else None)"

text \<open>
  \<open>newBoard[r][c] = v\<close> on the copy \<open>board.map(row => [...row])\<close>, whose rows are fresh
  arrays. Without the row \<open>r\<close> the write raises a TypeError (\<open>None\<close>). A column inside
  the row is overwritten. A column from the row's end on, up to the largest array
  index 4294967294, lengthens the row: the cells in between are holes, read as
  \<open>undefined\<close>. Any other column, a negative one or one from 4294967295 on, is no array
  index: the write sets a property of the row object that is no element of it, which
  the copy \<open>[...row]\<close>, the iteration of \<open>toFen\<close> and every read at another column pass
  by. Only a read at that same column of that same row object could see it, and the
  program reads a stored board at columns 0 to 8 only, so the board is unchanged here.
\<close>

definition setCell :: "Board \<Rightarrow> int \<Rightarrow> int \<Rightarrow> Cell \<Rightarrow> Board option" where
  "setCell b r c v =
     (if \<not> hasRow b r then None
      else if c < 0 \<or> 4294967294 < c then Some b
      else (let cells = b ! nat r in
            Some (b[nat r := (if nat c < length cells then cells[nat c := v]
                              else cells @ replicate (nat c - length cells) None @ [v])])))"

text \<open>
  The three statements shared by \<open>applyMove\<close> and \<open>generateLegalMoves\<close>: copy the
  board, write the origin's cell to the destination, clear the origin. The first
  assignment raises a TypeError unless the board has both rows; the origin is read from
  the fresh copy, where a column that is no stored cell reads \<open>undefined\<close>.
\<close>

definition movePiece :: "Board \<Rightarrow> Square \<Rightarrow> Square \<Rightarrow> Board option" where
  "movePiece b from to =
     (if \<not> hasRow b (row from) then None
      else do {
        placed \<leftarrow> setCell b (row to) (col to) (cellAt b (row from) (col from));
        setCell placed (row from) (col from) (Some None)
      })"

definition applyMove :: "Position \<Rightarrow> Square \<Rightarrow> Square \<Rightarrow> Position option" where
  "applyMove pos from to =
     do {
       newBoard \<leftarrow> movePiece (board pos) from to;
       Some \<lparr>board = newBoard, turn = (if turn pos = ''w'' then ''b'' else ''w'')\<rparr>
     }"

text \<open>\<open>piece === piece.toUpperCase()\<close>.\<close>

definition isRedPiece :: "PieceChar \<Rightarrow> bool" where
  "isRedPiece piece \<longleftrightarrow> [of_char piece] = toUpperCase piece"

section \<open>Rule engine (lib/xiangqi.ts)\<close>

definition pieceColor :: "PieceChar \<Rightarrow> Side" where
  "pieceColor p = (if isRedPiece p then ''w'' else ''b'')"

definition inBounds :: "int \<Rightarrow> int \<Rightarrow> bool" where
  "inBounds r c \<longleftrightarrow> r \<ge> 0 \<and> r < 10 \<and> c \<ge> 0 \<and> c < 9"

definition inPalace :: "int \<Rightarrow> int \<Rightarrow> Side \<Rightarrow> bool" where
  "inPalace r c side =
     (if c < 3 \<or> c > 5 then False
      else if side = ''w'' then r \<ge> 7 \<and> r \<le> 9
      else r \<ge> 0 \<and> r \<le> 2)"

definition ownHalf :: "int \<Rightarrow> Side \<Rightarrow> bool" where
  "ownHalf r side = (if side = ''w'' then r \<ge> 5 else r \<le> 4)"

text \<open>The closure \<open>canMoveTo\<close> of \<open>generatePieceMoves\<close>.\<close>

definition canMoveTo :: "Board \<Rightarrow> Side \<Rightarrow> int \<Rightarrow> int \<Rightarrow> bool option" where
  "canMoveTo b side r c =
     (if \<not> inBounds r c then Some False
      else do {
        target \<leftarrow> cellAt b r c;
        Some (case target of None \<Rightarrow> True | Some t \<Rightarrow> pieceColor t \<noteq> side)
      })"

text \<open>\<open>if (canMoveTo(nr, nc)) targets.push({ row: nr, col: nc })\<close>.\<close>

definition target :: "Board \<Rightarrow> Side \<Rightarrow> int \<Rightarrow> int \<Rightarrow> Square list option" where
  "target b side nr nc =
     do {
       ok \<leftarrow> canMoveTo b side nr nc;
       Some (if ok then [\<lparr>row = nr, col = nc\<rparr>] else [])
     }"

text \<open>
  A \<open>for ... of\<close> loop whose body pushes onto \<open>targets\<close>: the pushes of each round, in
  order.
\<close>

fun collect :: "('a \<Rightarrow> 'b list option) \<Rightarrow> 'a list \<Rightarrow> 'b list option" where
  "collect f [] = Some []"
| "collect f (x # xs) = do { ys \<leftarrow> f x; zs \<leftarrow> collect f xs; Some (ys @ zs) }"

declare collect.simps [simp del]

text \<open>
  The chariot's inner loop \<open>for (let i = 1; i < 10; i++)\<close> in one direction; the list
  holds the values of \<open>i\<close> still to run, and leaving the recursion is \<open>break\<close>.
\<close>

fun rookRay ::
  "Board \<Rightarrow> Side \<Rightarrow> int \<Rightarrow> int \<Rightarrow> int \<times> int \<Rightarrow> int list \<Rightarrow> Square list option" where
  "rookRay b side r c (dr, dc) [] = Some []"
| "rookRay b side r c (dr, dc) (i # steps) =
     (let nr = r + dr * i; nc = c + dc * i in
      if \<not> inBounds nr nc then Some []
      else do {
        cell \<leftarrow> cellAt b nr nc;
        case cell of
          None \<Rightarrow> do {
            more \<leftarrow> rookRay b side r c (dr, dc) steps;
            Some (\<lparr>row = nr, col = nc\<rparr> # more)
          }
        | Some q \<Rightarrow> Some (if pieceColor q \<noteq> side then [\<lparr>row = nr, col = nc\<rparr>] else [])
      })"

text \<open>The cannon's inner loop, with its flag \<open>jumped\<close>.\<close>

fun cannonRay ::
  "Board \<Rightarrow> Side \<Rightarrow> int \<Rightarrow> int \<Rightarrow> int \<times> int \<Rightarrow> bool \<Rightarrow> int list \<Rightarrow> Square list option" where
  "cannonRay b side r c (dr, dc) jumped [] = Some []"
| "cannonRay b side r c (dr, dc) jumped (i # steps) =
     (let nr = r + dr * i; nc = c + dc * i in
      if \<not> inBounds nr nc then Some []
      else if \<not> hasRow b nr then None
      else if \<not> jumped then
        (if cellAt b nr nc = Some None then do {
           more \<leftarrow> cannonRay b side r c (dr, dc) False steps;
           Some (\<lparr>row = nr, col = nc\<rparr> # more)
         }
         else cannonRay b side r c (dr, dc) True steps)
      else
        (case cellAt b nr nc of
           None \<Rightarrow> None
         | Some None \<Rightarrow> cannonRay b side r c (dr, dc) True steps
         | Some (Some q) \<Rightarrow>
             Some (if pieceColor q \<noteq> side then [\<lparr>row = nr, col = nc\<rparr>] else [])))"

definition knightMoves :: "(int \<times> int \<times> int \<times> int) list" where
  "knightMoves =
     [(-2, -1, -1, 0), (-2, 1, -1, 0),
      (2, -1, 1, 0), (2, 1, 1, 0),
      (-1, -2, 0, -1), (-1, 2, 0, 1),
      (1, -2, 0, -1), (1, 2, 0, 1)]"

definition elephantMoves :: "(int \<times> int \<times> int \<times> int) list" where
  "elephantMoves =
     [(-2, -2, -1, -1), (-2, 2, -1, 1),
      (2, -2, 1, -1), (2, 2, 1, 1)]"

definition knightStep ::
  "Board \<Rightarrow> Side \<Rightarrow> int \<Rightarrow> int \<Rightarrow> int \<times> int \<times> int \<times> int \<Rightarrow> Square list option" where
  "knightStep b side r c m =
     (case m of (dr, dc, blockR, blockC) \<Rightarrow>
        (let br = r + blockR; bc = c + blockC in
         if \<not> inBounds br bc then Some []
         else if \<not> hasRow b br then None
         else if cellAt b br bc \<noteq> Some None then Some []
         else target b side (r + dr) (c + dc)))"

definition elephantStep ::
  "Board \<Rightarrow> Side \<Rightarrow> int \<Rightarrow> int \<Rightarrow> int \<times> int \<times> int \<times> int \<Rightarrow> Square list option" where
  "elephantStep b side r c m =
     (case m of (dr, dc, blockR, blockC) \<Rightarrow>
        (let br = r + blockR; bc = c + blockC in
         if \<not> inBounds br bc then Some []
         else if \<not> hasRow b br then None
         else if cellAt b br bc \<noteq> Some None then Some []
         else (let nr = r + dr; nc = c + dc in
               if \<not> inBounds nr nc then Some []
               else if \<not> ownHalf nr side then Some []
               else target b side nr nc)))"

text \<open>One round of the advisor's loop and of the general's first loop.\<close>

definition palaceStep ::
  "Board \<Rightarrow> Side \<Rightarrow> int \<Rightarrow> int \<Rightarrow> int \<times> int \<Rightarrow> Square list option" where
  "palaceStep b side r c d =
     (case d of (dr, dc) \<Rightarrow>
        (let nr = r + dr; nc = c + dc in
         if \<not> inPalace nr nc side then Some []
         else target b side nr nc))"

text \<open>
  The flying-general scan \<open>for (let r = row + dir; r >= 0 && r < 10; r += dir)\<close>; the
  list holds the values \<open>r\<close> takes, and the loop condition is tested on each.
\<close>

fun flyingScan :: "Board \<Rightarrow> PieceChar \<Rightarrow> int \<Rightarrow> int list \<Rightarrow> Square list option" where
  "flyingScan b opponentKing c [] = Some []"
| "flyingScan b opponentKing c (r # rows) =
     (if \<not> (r \<ge> 0 \<and> r < 10) then Some []
      else if \<not> hasRow b r then None
      else if cellAt b r c = Some None then flyingScan b opponentKing c rows
      else Some (if cellAt b r c = Some (Some opponentKing) then [\<lparr>row = r, col = c\<rparr>] else []))"

text \<open>The branches of \<open>generatePieceMoves\<close>, one per piece type.\<close>

definition rookTargets :: "Board \<Rightarrow> Side \<Rightarrow> int \<Rightarrow> int \<Rightarrow> Square list option" where
  "rookTargets b side r c =
     collect (\<lambda>d. rookRay b side r c d [1..9]) [(0, 1), (0, -1), (1, 0), (-1, 0)]"

definition cannonTargets :: "Board \<Rightarrow> Side \<Rightarrow> int \<Rightarrow> int \<Rightarrow> Square list option" where
  "cannonTargets b side r c =
     collect (\<lambda>d. cannonRay b side r c d False [1..9]) [(0, 1), (0, -1), (1, 0), (-1, 0)]"

definition knightTargets :: "Board \<Rightarrow> Side \<Rightarrow> int \<Rightarrow> int \<Rightarrow> Square list option" where
  "knightTargets b side r c = collect (knightStep b side r c) knightMoves"

definition elephantTargets :: "Board \<Rightarrow> Side \<Rightarrow> int \<Rightarrow> int \<Rightarrow> Square list option" where
  "elephantTargets b side r c = collect (elephantStep b side r c) elephantMoves"

definition advisorTargets :: "Board \<Rightarrow> Side \<Rightarrow> int \<Rightarrow> int \<Rightarrow> Square list option" where
  "advisorTargets b side r c =
     collect (palaceStep b side r c) [(-1, -1), (-1, 1), (1, -1), (1, 1)]"

text \<open>
  The general's branch. From any start row the scan loop runs at most ten rounds before
  its variable leaves the rows 0 to 9, so the rows \<open>r + dir * i\<close> for \<open>i\<close> from 1 to
  10 hold every value the loop variable takes.
\<close>

definition kingTargets :: "Board \<Rightarrow> Side \<Rightarrow> int \<Rightarrow> int \<Rightarrow> Square list option" where
  "kingTargets b side r c =
     do {
       steps \<leftarrow> collect (palaceStep b side r c) [(0, 1), (0, -1), (1, 0), (-1, 0)];
       flying \<leftarrow> collect (\<lambda>dir. flyingScan b (if side = ''w'' then CHR ''k'' else CHR ''K'') c
                                     (map (\<lambda>i. r + dir * i) [1..10])) [-1, 1];
       Some (steps @ flying)
     }"

definition pawnTargets :: "Board \<Rightarrow> Side \<Rightarrow> int \<Rightarrow> int \<Rightarrow> Square list option" where
  "pawnTargets b side r c =
     (if side = ''w'' then do {
        forward \<leftarrow> target b side (r - 1) c;
        if \<not> ownHalf r side then do {
          left \<leftarrow> target b side r (c - 1);
          right \<leftarrow> target b side r (c + 1);
          Some (forward @ left @ right)
        } else Some forward
      } else do {
        forward \<leftarrow> target b side (r + 1) c;
        if \<not> ownHalf r side then do {
          left \<leftarrow> target b side r (c - 1);
          right \<leftarrow> target b side r (c + 1);
          Some (forward @ left @ right)
        } else Some forward
      })"

definition generatePieceMoves ::
  "Board \<Rightarrow> int \<Rightarrow> int \<Rightarrow> PieceChar \<Rightarrow> Square list option" where
  "generatePieceMoves b r c piece =
     (let side = pieceColor piece; type = toLowerCase piece in
      if type = CHR ''r'' then rookTargets b side r c
      else if type = CHR ''c'' then cannonTargets b side r c
      else if type = CHR ''n'' then knightTargets b side r c
      else if type = CHR ''b'' then elephantTargets b side r c
      else if type = CHR ''a'' then advisorTargets b side r c
      else if type = CHR ''k'' then kingTargets b side r c
      else if type = CHR ''p'' then pawnTargets b side r c
      else Some [])"

text \<open>The squares in the order of \<open>for r in 0..9, for c in 0..8\<close>.\<close>

definition allSquares :: "(int \<times> int) list" where
  "allSquares = concat (map (\<lambda>r. map (\<lambda>c. (r, c)) [0..8]) [0..9])"

text \<open>\<open>findKing\<close>: the inner \<open>None\<close> is the source's \<open>null\<close> (no general found).\<close>

fun findKingIn :: "Board \<Rightarrow> PieceChar \<Rightarrow> (int \<times> int) list \<Rightarrow> Square option option" where
  "findKingIn b king [] = Some None"
| "findKingIn b king ((r, c) # rest) =
     (if \<not> hasRow b r then None
      else if cellAt b r c = Some (Some king) then Some (Some \<lparr>row = r, col = c\<rparr>)
      else findKingIn b king rest)"

definition findKing :: "Board \<Rightarrow> Side \<Rightarrow> Square option option" where
  "findKing b side = findKingIn b (if side = ''w'' then CHR ''K'' else CHR ''k'') allSquares"

fun isUnderAttackIn :: "Board \<Rightarrow> Square \<Rightarrow> Side \<Rightarrow> (int \<times> int) list \<Rightarrow> bool option" where
  "isUnderAttackIn b sq byWhom [] = Some False"
| "isUnderAttackIn b sq byWhom ((r, c) # rest) =
     do {
       cell \<leftarrow> cellAt b r c;
       case cell of
         None \<Rightarrow> isUnderAttackIn b sq byWhom rest
       | Some p \<Rightarrow>
           if pieceColor p \<noteq> byWhom then isUnderAttackIn b sq byWhom rest
           else do {
             moves \<leftarrow> generatePieceMoves b r c p;
             if list_ex (\<lambda>m. row m = row sq \<and> col m = col sq) moves then Some True
             else isUnderAttackIn b sq byWhom rest
           }
     }"

definition isUnderAttack :: "Board \<Rightarrow> Square \<Rightarrow> Side \<Rightarrow> bool option" where
  "isUnderAttack b sq byWhom = isUnderAttackIn b sq byWhom allSquares"

definition isInCheck :: "Position \<Rightarrow> bool option" where
  "isInCheck pos =
     do {
       kingSq \<leftarrow> findKing (board pos) (turn pos);
       case kingSq of
         None \<Rightarrow> Some False
       | Some k \<Rightarrow> isUnderAttack (board pos) k (if turn pos = ''w'' then ''b'' else ''w'')
     }"

text \<open>
  The body of the loop \<open>for (const to of targets)\<close> in \<open>generateLegalMoves\<close>: the move
  it pushes, if any.
\<close>

definition keepsKingSafe :: "Board \<Rightarrow> Side \<Rightarrow> int \<Rightarrow> int \<Rightarrow> Square \<Rightarrow> Move list option" where
  "keepsKingSafe b turn0 r c to =
     do {
       newBoard \<leftarrow> movePiece b \<lparr>row = r, col = c\<rparr> to;
       kingSq \<leftarrow> findKing newBoard turn0;
       case kingSq of
         None \<Rightarrow> Some []
       | Some k \<Rightarrow> do {
           attacked \<leftarrow> isUnderAttack newBoard k (if turn0 = ''w'' then ''b'' else ''w'');
           Some (if \<not> attacked then [\<lparr>mv_from = \<lparr>row = r, col = c\<rparr>, mv_to = to\<rparr>] else [])
         }
     }"

text \<open>The body of the two outer loops, for one square.\<close>

definition movesFrom :: "Board \<Rightarrow> Side \<Rightarrow> int \<times> int \<Rightarrow> Move list option" where
  "movesFrom b turn0 rc =
     (case rc of (r, c) \<Rightarrow>
        do {
          cell \<leftarrow> cellAt b r c;
          case cell of
            None \<Rightarrow> Some []
          | Some p \<Rightarrow>
              if pieceColor p \<noteq> turn0 then Some []
              else do {
                targets \<leftarrow> generatePieceMoves b r c p;
                collect (keepsKingSafe b turn0 r c) targets
              }
        })"

definition generateLegalMoves :: "Position \<Rightarrow> Move list option" where
  "generateLegalMoves pos = collect (movesFrom (board pos) (turn pos)) allSquares"

definition isLegalMove :: "Position \<Rightarrow> Square \<Rightarrow> Square \<Rightarrow> bool option" where
  "isLegalMove pos from to =
     do {
       legal \<leftarrow> generateLegalMoves pos;
       Some (list_ex (\<lambda>m. row (mv_from m) = row from \<and> col (mv_from m) = col from \<and>
                           row (mv_to m) = row to \<and> col (mv_to m) = col to) legal)
     }"

definition isCheckmate :: "Position \<Rightarrow> bool option" where
  "isCheckmate pos =
     do {
       inCheck \<leftarrow> isInCheck pos;
       if \<not> inCheck then Some False
       else do { legal \<leftarrow> generateLegalMoves pos; Some (length legal = 0) }
     }"

definition isStalemate :: "Position \<Rightarrow> bool option" where
  "isStalemate pos =
     do {
       inCheck \<leftarrow> isInCheck pos;
       if inCheck then Some False
       else do { legal \<leftarrow> generateLegalMoves pos; Some (length legal = 0) }
     }"

section \<open>Game state (hooks/useGame.ts)\<close>

record MoveRecord =
  uci :: string
  fen :: string

text \<open>The state cells of the hook \<open>useGame\<close>; \<open>gameOver\<close> is a display text or \<open>null\<close>.\<close>

record GameState =
  baseFen :: string
  position :: Position
  moveHistory :: "MoveRecord list"
  currentIndex :: int
  gameOver :: "nat list option"

text \<open>The initial values of the state cells, for the default \<open>defaultFen\<close>.\<close>

definition initialGame :: GameState where
  "initialGame =
     \<lparr>baseFen = STARTING_FEN, position = parseFen STARTING_FEN, moveHistory = [],
      currentIndex = -1, gameOver = None\<rparr>"

text \<open>
  The loop of \<open>loadMoves\<close>, with its variables \<open>pos\<close> and \<open>history\<close>: each move is
  parsed and handed to \<open>applyMove\<close>; no legality test is made.
\<close>

fun replay ::
  "Position \<Rightarrow> MoveRecord list \<Rightarrow> string list \<Rightarrow> (Position \<times> MoveRecord list) option" where
  "replay pos history [] = Some (pos, history)"
| "replay pos history (m # moves) =
     do {
       (from, to) \<leftarrow> parseUciMove m;
       pos' \<leftarrow> applyMove pos from to;
       replay pos' (history @ [\<lparr>uci = m, fen = toFen pos'\<rparr>]) moves
     }"

text \<open>\<open>loadMoves(moves, startFen?)\<close>; the base text is \<open>startFen || baseFen\<close>.\<close>

definition loadMoves :: "string list \<Rightarrow> string option \<Rightarrow> GameState \<Rightarrow> GameState option" where
  "loadMoves moves startFen st =
     (let fen0 = (case startFen of
                    None \<Rightarrow> baseFen st
                  | Some f \<Rightarrow> if f \<noteq> [] then f else baseFen st)
      in do {
        (pos, history) \<leftarrow> replay (parseFen fen0) [] moves;
        Some \<lparr>baseFen = fen0, position = pos, moveHistory = history,
              currentIndex = int (length history) - 1, gameOver = None\<rparr>
      })"

section \<open>Positional notation (lib/notation.ts)\<close>

text \<open>
  The notation's texts hold characters outside ASCII, so they are lists of Unicode code
  points here; \<open>codePoints\<close> embeds an ASCII text.
\<close>

definition codePoints :: "string \<Rightarrow> nat list" where
  "codePoints s = map of_char s"

definition PIECE_NAMES :: "(char \<times> nat list) list" where
  "PIECE_NAMES =
     [(CHR ''R'', [0x8F66]), (CHR ''N'', [0x9A6C]), (CHR ''B'', [0x76F8]), (CHR ''A'', [0x4ED5]),
      (CHR ''K'', [0x5E05]), (CHR ''C'', [0x70AE]), (CHR ''P'', [0x5175]),
      (CHR ''r'', [0x8F66]), (CHR ''n'', [0x9A6C]), (CHR ''b'', [0x8C61]), (CHR ''a'', [0x58EB]),
      (CHR ''k'', [0x5C06]), (CHR ''c'', [0x70AE]), (CHR ''p'', [0x5352])]"

definition RED_DIGITS :: "nat list list" where
  "RED_DIGITS = [[], [0x4E00], [0x4E8C], [0x4E09], [0x56DB], [0x4E94], [0x516D], [0x4E03],
                 [0x516B], [0x4E5D]]"

definition BLACK_DIGITS :: "nat list list" where
  "BLACK_DIGITS = [[], [49], [50], [51], [52], [53], [54], [55], [56], [57]]"

text \<open>
  \<open>digits[n]\<close> inside the template literal: an index that is NaN or outside the array
  reads \<open>undefined\<close>, which the template prints as that word.
\<close>

definition digitAt :: "nat list list \<Rightarrow> int option \<Rightarrow> nat list" where
  "digitAt digits n =
     (case n of
        None \<Rightarrow> codePoints ''undefined''
      | Some k \<Rightarrow> if 0 \<le> k \<and> k < int (length digits) then digits ! nat k
                  else codePoints ''undefined'')"

text \<open>
  \<open>uciToChineseNotation\<close>. Numbers that may be NaN are \<open>int option\<close>. The result
  \<open>None\<close> is the TypeError of \<open>pos.board[fromRow][fromCol]\<close> when the board has no row
  \<open>fromRow\<close>; a column that is NaN or not stored reads \<open>undefined\<close> and returns the move
  token unchanged, as an empty cell does.
\<close>

definition uciToChineseNotation :: "string \<Rightarrow> string \<Rightarrow> nat list option" where
  "uciToChineseNotation uciMove0 fen0 =
     (let pos = parseFen fen0;
          fromCol = map_option (\<lambda>code. code - 97) (charCodeAt uciMove0 0);
          fromRank = parseIntAt uciMove0 1;
          toCol = map_option (\<lambda>code. code - 97) (charCodeAt uciMove0 2);
          toRank = parseIntAt uciMove0 3;
          fromRow = map_option (\<lambda>rank. 9 - rank) fromRank;
          toRow = map_option (\<lambda>rank. 9 - rank) toRank
      in case fromRow of
           None \<Rightarrow> None
         | Some fr \<Rightarrow>
             if \<not> (0 \<le> fr \<and> fr < int (length (board pos))) then None
             else
               (case (case fromCol of
                        None \<Rightarrow> None
                      | Some fc \<Rightarrow> cellAt (board pos) fr fc) of
                  None \<Rightarrow> Some (codePoints uciMove0)
                | Some None \<Rightarrow> Some (codePoints uciMove0)
                | Some (Some piece) \<Rightarrow>
                    (let isRed = isRedPiece piece;
                         digits = (if isRed then RED_DIGITS else BLACK_DIGITS);
                         pieceName = (case map_of PIECE_NAMES piece of
                                        None \<Rightarrow> codePoints ''?''
                                      | Some name \<Rightarrow> name);
                         colDisplay = map_option (\<lambda>fc. if isRed then 9 - fc else fc + 1) fromCol;
                         pType = toLowerCase piece;
                         destCol = map_option (\<lambda>tc. if isRed then 9 - tc else tc + 1) toCol
                     in if toRow = Some fr then
                          Some (pieceName @ digitAt digits colDisplay @ [0x5E73]
                                @ digitAt digits destCol)
                        else
                          (let forward = (case toRow of
                                            None \<Rightarrow> False
                                          | Some tr \<Rightarrow> if isRed then tr < fr else tr > fr);
                               action = (if forward then [0x8FDB] else [0x9000]);
                               quantity =
                                 (if pType = CHR ''r'' \<or> pType = CHR ''c''
                                     \<or> pType = CHR ''p'' \<or> pType = CHR ''k''
                                  then digitAt digits (map_option (\<lambda>tr. \<bar>tr - fr\<bar>) toRow)
                                  else digitAt digits destCol)
                           in Some (pieceName @ digitAt digits colDisplay @ action @ quantity)))))"

section \<open>Analysis dispatcher\<close>

text \<open>
  Modelled from the spec: the Analysis Dispatcher and the Engine Session Manager are
  server code that is not among the sources (only the client hook \<open>useEngine\<close>, which
  stores whatever message arrives, is). The spec gives the relay rule: every request
  owns a monotonically increasing sequence number, an event carries the number of the
  request that produced it, and the client-facing relay drops every event whose number
  is not the current highest. The engine and the client run concurrently; the model
  takes their actions as one interleaved list of inputs, in any order.
\<close>

datatype AnalysisEvent =
  Progress nat int "int option" "(nat \<times> nat \<times> nat) option" "string list" nat nat
| Result string "string option" nat

datatype DispatcherInput = Submit | Emit nat AnalysisEvent

record Dispatcher =
  highest :: nat
  stream :: "(nat \<times> AnalysisEvent) list"

definition freshDispatcher :: Dispatcher where
  "freshDispatcher = \<lparr>highest = 0, stream = []\<rparr>"

fun relay :: "Dispatcher \<Rightarrow> DispatcherInput \<Rightarrow> Dispatcher" where
  "relay d Submit = d\<lparr>highest := highest d + 1\<rparr>"
| "relay d (Emit n ev) =
     (if n = highest d then d\<lparr>stream := stream d @ [(n, ev)]\<rparr> else d)"

definition dispatch :: "Dispatcher \<Rightarrow> DispatcherInput list \<Rightarrow> Dispatcher" where
  "dispatch d inputs = foldl relay d inputs"

section \<open>Notions of the specification\<close>

text \<open>
  A Position as the data model describes it: 10 rows of 9 cells, each empty or one of
  the fourteen piece letters, and one of the two sides to move. \<open>gridShape\<close> is the
  shape alone: 10 rows of 9 cells of the declared type, piece or \<open>null\<close>, whatever the
  piece.
\<close>

definition isPieceChar :: "char \<Rightarrow> bool" where
  "isPieceChar ch \<longleftrightarrow> ch \<in> set ''rnbakcpRNBAKCP''"

definition wf_cell :: "Cell \<Rightarrow> bool" where
  "wf_cell cell =
     (case cell of None \<Rightarrow> False | Some None \<Rightarrow> True | Some (Some ch) \<Rightarrow> isPieceChar ch)"

definition gridShape :: "Board \<Rightarrow> bool" where
  "gridShape b \<longleftrightarrow>
     length b = 10 \<and> list_all (\<lambda>r. length r = 9 \<and> list_all (\<lambda>cell. cell \<noteq> None) r) b"

definition wf_board :: "Board \<Rightarrow> bool" where
  "wf_board b \<longleftrightarrow> gridShape b \<and> list_all (list_all wf_cell) b"

definition wf_position :: "Position \<Rightarrow> bool" where
  "wf_position pos \<longleftrightarrow> wf_board (board pos) \<and> (turn pos = ''w'' \<or> turn pos = ''b'')"

definition okTargets :: "Square list \<Rightarrow> bool" where
  "okTargets ts \<longleftrightarrow> list_all (\<lambda>t. inBounds (row t) (col t)) ts"

definition opponent :: "Side \<Rightarrow> Side" where
  "opponent side = (if side = ''w'' then ''b'' else ''w'')"

text \<open>Whether a side has its general on the board.\<close>

definition generalOf :: "Side \<Rightarrow> PieceChar" where
  "generalOf side = (if side = ''w'' then CHR ''K'' else CHR ''k'')"

definition hasGeneral :: "Board \<Rightarrow> Side \<Rightarrow> bool" where
  "hasGeneral b side =
     list_ex (\<lambda>(r, c). cellAt b r c = Some (Some (generalOf side))) allSquares"

text \<open>
  Attacked, in the spec's words: some pseudo-move of some piece of the given side lands
  on the square.
\<close>

definition attackedBy :: "Board \<Rightarrow> Square \<Rightarrow> Side \<Rightarrow> bool" where
  "attackedBy b sq side =
     list_ex (\<lambda>(r, c).
        case cellAt b r c of
          Some (Some q) \<Rightarrow>
            pieceColor q = side \<and>
            (case generatePieceMoves b r c q of Some ts \<Rightarrow> sq \<in> set ts | None \<Rightarrow> False)
        | _ \<Rightarrow> False) allSquares"

text \<open>
  The squares strictly between two squares of one rank or of one file, and how many of
  them are occupied.
\<close>

definition squaresBetween :: "int \<Rightarrow> int \<Rightarrow> int \<Rightarrow> int \<Rightarrow> (int \<times> int) list" where
  "squaresBetween r c tr tc =
     (if r = tr then map (\<lambda>j. (r, j)) [min c tc + 1 .. max c tc - 1]
      else if c = tc then map (\<lambda>i. (i, c)) [min r tr + 1 .. max r tr - 1]
      else [])"

definition occupied :: "Board \<Rightarrow> int \<times> int \<Rightarrow> bool" where
  "occupied b s = (case cellAt b (fst s) (snd s) of Some (Some q) \<Rightarrow> True | _ \<Rightarrow> False)"

definition occupiedBetween :: "Board \<Rightarrow> int \<Rightarrow> int \<Rightarrow> int \<Rightarrow> int \<Rightarrow> nat" where
  "occupiedBetween b r c tr tc = length (filter (occupied b) (squaresBetween r c tr tc))"

text \<open>A board that holds the two generals, on the given squares, and nothing else.\<close>

definition onlyGenerals :: "Board \<Rightarrow> Square \<Rightarrow> Square \<Rightarrow> bool" where
  "onlyGenerals b red black \<longleftrightarrow>
     list_all (\<lambda>(r, c).
        cellAt b r c =
          Some (if r = row red \<and> c = col red then Some CHR ''K''
                else if r = row black \<and> c = col black then Some CHR ''k''
                else None)) allSquares"

text \<open>
  The contract the spec words for \<open>loadMoves\<close>: the moves up to the first one that is
  not legal in the position it is applied to.
\<close>

fun legalPrefix :: "Position \<Rightarrow> string list \<Rightarrow> string list" where
  "legalPrefix pos [] = []"
| "legalPrefix pos (m # moves) =
     (case parseUciMove m of
        None \<Rightarrow> []
      | Some (from, to) \<Rightarrow>
          if isLegalMove pos from to = Some True
          then (case applyMove pos from to of
                  None \<Rightarrow> []
                | Some pos' \<Rightarrow> m # legalPrefix pos' moves)
          else [])"

text \<open>
  The replay the code makes instead: the Position reached from a base Position by
  applying the given moves in order with \<open>applyMove\<close>, each taken apart by
  \<open>parseUciMove\<close>, with no legality test. A move token needs its second and fourth
  character to be digits for that: then the rows \<open>applyMove\<close> reads are numbers from 0
  to 9.
\<close>

definition playMove :: "Position \<Rightarrow> string \<Rightarrow> Position option" where
  "playMove pos m = do { (from, to) \<leftarrow> parseUciMove m; applyMove pos from to }"

fun positionAfter :: "Position \<Rightarrow> string list \<Rightarrow> Position option" where
  "positionAfter pos [] = Some pos"
| "positionAfter pos (m # moves) = do { pos' \<leftarrow> playMove pos m; positionAfter pos' moves }"

definition rankedToken :: "string \<Rightarrow> bool" where
  "rankedToken m \<longleftrightarrow> 3 < length m \<and> isDigit (m ! 1) \<and> isDigit (m ! 3)"

text \<open>A move token of four characters: file letter, rank digit, file letter, rank digit.\<close>

definition validToken :: "string \<Rightarrow> bool" where
  "validToken m \<longleftrightarrow>
     length m = 4 \<and> m ! 0 \<in> set FILES \<and> isDigit (m ! 1) \<and> m ! 2 \<in> set FILES \<and> isDigit (m ! 3)"

text \<open>
  The positional notation in the spec's words. Files are numbered from the right for
  the first mover and from the left for the second; the first mover's digits are the
  ideographic set, the second mover's are numerals; the first mover advances towards
  row 0. The quantity is the number of ranks traversed for a chariot, cannon, general
  or soldier that changes rank, and the destination file otherwise.
\<close>

definition sideRelativeFile :: "bool \<Rightarrow> int \<Rightarrow> int" where
  "sideRelativeFile firstMover c = (if firstMover then 9 - c else c + 1)"

definition digitGlyph :: "bool \<Rightarrow> int \<Rightarrow> nat list" where
  "digitGlyph firstMover n = (if firstMover then RED_DIGITS ! nat n else [48 + nat n])"

definition lateral :: "nat list" where "lateral = [0x5E73]"
definition advance :: "nat list" where "advance = [0x8FDB]"
definition retreat :: "nat list" where "retreat = [0x9000]"

definition countsRanks :: "PieceChar \<Rightarrow> bool" where
  "countsRanks piece \<longleftrightarrow> toLowerCase piece \<in> set ''rckp''"

definition actionGlyph :: "PieceChar \<Rightarrow> Square \<Rightarrow> Square \<Rightarrow> nat list" where
  "actionGlyph piece from to =
     (if row from = row to then lateral
      else if (if isRedPiece piece then row to < row from else row from < row to) then advance
      else retreat)"

definition quantityGlyph :: "PieceChar \<Rightarrow> Square \<Rightarrow> Square \<Rightarrow> nat list" where
  "quantityGlyph piece from to =
     digitGlyph (isRedPiece piece)
       (if row from \<noteq> row to \<and> countsRanks piece then \<bar>row to - row from\<bar>
        else sideRelativeFile (isRedPiece piece) (col to))"

definition positionalNotation :: "PieceChar \<Rightarrow> Square \<Rightarrow> Square \<Rightarrow> nat list" where
  "positionalNotation piece from to =
     the (map_of PIECE_NAMES piece)
     @ digitGlyph (isRedPiece piece) (sideRelativeFile (isRedPiece piece) (col from))
     @ actionGlyph piece from to
     @ quantityGlyph piece from to"


section \<open>The position codec\<close>

lemma js_split_nonempty: "js_split sep s \<noteq> []"
  by (induction s) (auto split: list.splits)

lemma js_split_no_sep: "sep \<notin> set a \<Longrightarrow> js_split sep a = [a]"
  by (induction a) auto

lemma js_split_append: "sep \<notin> set a \<Longrightarrow> js_split sep (a @ sep # b) = a # js_split sep b"
  by (induction a) auto

lemma js_split_join:
  "ranks \<noteq> [] \<Longrightarrow> \<forall>r \<in> set ranks. sep \<notin> set r \<Longrightarrow> js_split sep (js_join sep ranks) = ranks"
proof (induction sep ranks rule: js_join.induct)
  case (1 sep)
  then show ?case by simp
next
  case (2 sep part)
  then show ?case by (simp add: js_split_no_sep)
next
  case (3 sep part nxt parts)
  then show ?case by (simp add: js_split_append)
qed

lemma set_js_join: "set (js_join sep parts) \<subseteq> insert sep (\<Union>p \<in> set parts. set p)"
  by (induction sep parts rule: js_join.induct) auto

lemma parseRank_append: "parseRank (a @ b) = parseRank a @ parseRank b"
  by (induction a) auto

lemma decimal_digit: "n < 10 \<Longrightarrow> decimal n = [char_of (48 + n)]"
  by (simp add: decimal.simps)

lemma parseRank_decimal:
  "0 < n \<Longrightarrow> n < 10 \<Longrightarrow> parseRank (decimal n) = replicate n (Some None)"
  by (simp add: decimal_digit isRunDigit_def parseInt_def)

lemma encodeRow_rank: "encodeRow cells rank e = rank @ encodeRow cells [] e"
proof (induction cells arbitrary: rank e)
  case Nil
  then show ?case by simp
next
  case (Cons cell cells)
  show ?case
  proof (cases cell)
    case None
    show ?thesis
      using None Cons [of "(if 0 < e then rank @ decimal e else rank) @ ''undefined''" 0]
        Cons [of "(if 0 < e then [] @ decimal e else []) @ ''undefined''" 0]
      by simp
  next
    case (Some stored)
    show ?thesis
    proof (cases stored)
      case None
      then show ?thesis using Some Cons [of rank "e + 1"] by simp
    next
      case (Some ch)
      show ?thesis
        using \<open>cell = Some stored\<close> Some
          Cons [of "(if 0 < e then rank @ decimal e else rank) @ [ch]" 0]
          Cons [of "(if 0 < e then [] @ decimal e else []) @ [ch]" 0]
        by simp
    qed
  qed
qed

lemma encodeRow_Some:
  "encodeRow (Some (Some ch) # cells) [] e =
   (if 0 < e then decimal e else []) @ ch # encodeRow cells [] 0"
  using encodeRow_rank [of cells "(if 0 < e then [] @ decimal e else []) @ [ch]" 0] by simp

lemma isPieceChar_not_digit: "isPieceChar ch \<Longrightarrow> \<not> isRunDigit ch"
  by (auto simp: isPieceChar_def isRunDigit_def)

lemma wf_cell_cases:
  assumes "wf_cell cell"
  obtains (empty) "cell = Some None" | (piece) ch where "cell = Some (Some ch)" "isPieceChar ch"
  using assms by (auto simp: wf_cell_def split: option.splits)

lemma parseRank_encodeRow:
  "list_all wf_cell cells \<Longrightarrow> e + length cells \<le> 9 \<Longrightarrow>
   parseRank (encodeRow cells [] e) = replicate e (Some None) @ cells"
proof (induction cells arbitrary: e)
  case Nil
  then show ?case by (simp add: parseRank_decimal)
next
  case (Cons cell cells)
  have "wf_cell cell" using Cons.prems by simp
  then show ?case
  proof (cases rule: wf_cell_cases)
    case empty
    have "parseRank (encodeRow cells [] (e + 1)) = replicate (e + 1) (Some None) @ cells"
      using Cons by simp
    then show ?thesis using empty by (simp add: replicate_app_Cons_same)
  next
    case (piece ch)
    have ch: "\<not> isRunDigit ch" using piece(2) by (rule isPieceChar_not_digit)
    have rest: "parseRank (encodeRow cells [] 0) = cells" using Cons by simp
    show ?thesis using ch rest Cons.prems piece(1)
      by (simp add: encodeRow_Some parseRank_append parseRank_decimal del: encodeRow.simps)
  qed
qed

lemma set_encodeRow:
  "list_all wf_cell cells \<Longrightarrow> e + length cells \<le> 9 \<Longrightarrow> x \<in> set (encodeRow cells [] e) \<Longrightarrow>
   isPieceChar x \<or> isRunDigit x"
proof (induction cells arbitrary: e)
  case Nil
  then show ?case by (auto simp: decimal_digit isRunDigit_def split: if_splits)
next
  case (Cons cell cells)
  have "wf_cell cell" using Cons.prems by simp
  then show ?case
  proof (cases rule: wf_cell_cases)
    case empty
    then show ?thesis using Cons.IH [of "e + 1"] Cons.prems by simp
  next
    case (piece ch)
    then show ?thesis using Cons.IH [of 0] Cons.prems
      by (auto simp: encodeRow_Some decimal_digit isRunDigit_def
               simp del: encodeRow.simps split: if_splits)
  qed
qed

lemma encodeRow_no_slash:
  assumes "list_all wf_cell cells" "length cells \<le> 9"
  shows "CHR ''/'' \<notin> set (encodeRow cells [] 0)"
proof
  assume "CHR ''/'' \<in> set (encodeRow cells [] 0)"
  then have "isPieceChar CHR ''/'' \<or> isRunDigit CHR ''/''"
    using set_encodeRow [OF assms(1), of 0] assms(2) by simp
  then show False by (simp add: isPieceChar_def isRunDigit_def)
qed

lemma encodeRow_no_space:
  assumes "list_all wf_cell cells" "length cells \<le> 9"
  shows "CHR '' '' \<notin> set (encodeRow cells [] 0)"
proof
  assume "CHR '' '' \<in> set (encodeRow cells [] 0)"
  then have "isPieceChar CHR '' '' \<or> isRunDigit CHR '' ''"
    using set_encodeRow [OF assms(1), of 0] assms(2) by simp
  then show False by (simp add: isPieceChar_def isRunDigit_def)
qed

lemma wf_position_rows:
  assumes "wf_position pos" "r \<in> set (board pos)"
  shows "list_all wf_cell r" "length r = 9"
  using assms by (simp_all add: wf_position_def wf_board_def gridShape_def list_all_iff)

lemma parseFen_toFen_wf:
  assumes "wf_position pos"
  shows "parseFen (toFen pos) = pos"
proof -
  let ?ranks = "map (\<lambda>r. encodeRow r [] 0) (board pos)"
  have ne: "?ranks \<noteq> []"
    using assms by (auto simp: wf_position_def wf_board_def gridShape_def)
  have nosl: "\<forall>r \<in> set ?ranks. CHR ''/'' \<notin> set r"
    using wf_position_rows [OF assms] encodeRow_no_slash by fastforce
  have nosp: "\<forall>r \<in> set ?ranks. CHR '' '' \<notin> set r"
    using wf_position_rows [OF assms] encodeRow_no_space by fastforce
  have nosp_join: "CHR '' '' \<notin> set (js_join CHR ''/'' ?ranks)"
    using nosp set_js_join [of "CHR ''/''" ?ranks] by auto
  have t: "turn pos = ''w'' \<or> turn pos = ''b''" using assms by (simp add: wf_position_def)
  have parts: "js_split CHR '' '' (toFen pos) =
               [js_join CHR ''/'' ?ranks, turn pos, ''-'', ''-'', ''0'', ''1'']"
    unfolding toFen_def using t js_split_append [OF nosp_join] by auto
  have parsed: "map parseRank ?ranks = board pos"
    using wf_position_rows [OF assms] by (simp add: map_idI parseRank_encodeRow)
  have "parseFen (toFen pos) = \<lparr>board = board pos, turn = turn pos\<rparr>"
    unfolding parseFen_def using parts js_split_join [OF ne nosl] parsed t by auto
  then show ?thesis by simp
qed

text \<open>
  C2. For every Position of 10 rows by 9 columns of optional pieces with a side to move,
  decoding the encoded text gives the Position back: \<open>parseFen (toFen p) = p\<close>.
\<close>

theorem parseFen_toFen:
  assumes "wf_position pos"
  shows "parseFen (toFen pos) = pos"
  using assms by (rule parseFen_toFen_wf)

theorem parseFen_toFen_witness:
  "wf_position (parseFen STARTING_FEN) \<and>
   parseFen (toFen (parseFen STARTING_FEN)) = parseFen STARTING_FEN"
proof -
  have wf: "wf_position (parseFen STARTING_FEN)" by code_simp
  show ?thesis by (rule conjI [OF wf parseFen_toFen [OF wf]])
qed

text \<open>
  C4. \<open>parseFen\<close> rejects nothing: a text of two ranks with an unknown side token, and a
  text that is no board at all, both come back as Positions.
\<close>

theorem parseFen_accepts_malformed:
  "parseFen ''9/9 x'' =
     \<lparr>board = [replicate 9 (Some None), replicate 9 (Some None)], turn = ''x''\<rparr> \<and>
   parseFen ''abc'' =
     \<lparr>board = [[Some (Some CHR ''a''), Some (Some CHR ''b''), Some (Some CHR ''c'')]],
      turn = ''w''\<rparr>"
  by code_simp


section \<open>Checkmate and stalemate\<close>

text \<open>
  C3. A checkmate is a check with no legal move, a stalemate is no check with no legal
  move, and no Position is both.
\<close>

theorem checkmate_stalemate:
  "(isCheckmate p = Some True \<longrightarrow> isInCheck p = Some True \<and> generateLegalMoves p = Some []) \<and>
   (isStalemate p = Some True \<longrightarrow> isInCheck p = Some False \<and> generateLegalMoves p = Some []) \<and>
   \<not> (isCheckmate p = Some True \<and> isStalemate p = Some True)"
  by (auto simp: isCheckmate_def isStalemate_def split: bind_splits if_splits)

theorem checkmate_stalemate_witness:
  "(isCheckmate (parseFen ''3k5/9/9/9/9/9/9/9/9/3RK4 b'') = Some True \<and>
    isInCheck (parseFen ''3k5/9/9/9/9/9/9/9/9/3RK4 b'') = Some True \<and>
    generateLegalMoves (parseFen ''3k5/9/9/9/9/9/9/9/9/3RK4 b'') = Some []) \<and>
   (isStalemate (parseFen ''3k5/8R/9/9/9/9/9/9/9/4K4 b'') = Some True \<and>
    isInCheck (parseFen ''3k5/8R/9/9/9/9/9/9/9/4K4 b'') = Some False \<and>
    generateLegalMoves (parseFen ''3k5/8R/9/9/9/9/9/9/9/4K4 b'') = Some [])"
proof -
  have mate: "isCheckmate (parseFen ''3k5/9/9/9/9/9/9/9/9/3RK4 b'') = Some True"
    by code_simp
  have stale: "isStalemate (parseFen ''3k5/8R/9/9/9/9/9/9/9/4K4 b'') = Some True"
    by code_simp
  from checkmate_stalemate [of "parseFen ''3k5/9/9/9/9/9/9/9/9/3RK4 b''"] mate
  have m: "isInCheck (parseFen ''3k5/9/9/9/9/9/9/9/9/3RK4 b'') = Some True \<and>
           generateLegalMoves (parseFen ''3k5/9/9/9/9/9/9/9/9/3RK4 b'') = Some []"
    by blast
  from checkmate_stalemate [of "parseFen ''3k5/8R/9/9/9/9/9/9/9/4K4 b''"] stale
  have s: "isInCheck (parseFen ''3k5/8R/9/9/9/9/9/9/9/4K4 b'') = Some False \<and>
           generateLegalMoves (parseFen ''3k5/8R/9/9/9/9/9/9/9/4K4 b'') = Some []"
    by blast
  show ?thesis using mate stale m s by blast
qed

section \<open>Dispatcher sequencing\<close>

lemma relay_invariant:
  assumes "sorted (map fst (stream d))" "\<forall>n \<in> fst ` set (stream d). n \<le> highest d"
  shows "sorted (map fst (stream (relay d i))) \<and>
         (\<forall>n \<in> fst ` set (stream (relay d i)). n \<le> highest (relay d i))"
proof (cases i)
  case Submit
  then show ?thesis using assms by (auto simp: le_SucI)
next
  case (Emit n ev)
  then show ?thesis using assms by (auto simp: sorted_append)
qed

lemma dispatch_invariant:
  assumes "sorted (map fst (stream d))" "\<forall>n \<in> fst ` set (stream d). n \<le> highest d"
  shows "sorted (map fst (stream (dispatch d inputs)))"
  using assms unfolding dispatch_def
proof (induction inputs arbitrary: d)
  case Nil
  then show ?case by simp
next
  case (Cons i inputs)
  show ?case using Cons.IH [of "relay d i"] relay_invariant [OF Cons.prems, of i] by simp
qed

text \<open>
  C9. Requests R1 then R2 on one dispatcher have sequence numbers \<open>n1 < n2\<close>. Whatever
  the order in which submissions and engine events arrive, no event of R1 is in the
  client-visible stream after the first (indeed after any) event of R2.
\<close>

theorem dispatcher_no_stale_event:
  assumes "stream (dispatch freshDispatcher inputs) = before @ (n2, e2) # after"
    and "n1 < n2"
  shows "(n1, e1) \<notin> set after"
proof
  assume mem: "(n1, e1) \<in> set after"
  have "sorted (map fst (stream (dispatch freshDispatcher inputs)))"
    by (rule dispatch_invariant) (simp_all add: freshDispatcher_def)
  then have "sorted (map fst before @ n2 # map fst after)" using assms(1) by simp
  then have "\<forall>n \<in> set (map fst after). n2 \<le> n" by (simp add: sorted_append)
  then have "n2 \<le> n1" using mem by force
  then show False using assms(2) by simp
qed

theorem dispatcher_no_stale_event_witness:
  "stream (dispatch freshDispatcher
     [Submit, Emit 1 (Progress 1 30 None None [''b2e2''] 100 1000), Submit,
      Emit 1 (Progress 2 25 None None [''b2e2''] 200 1000),
      Emit 2 (Progress 1 (-10) None None [''h7e7''] 100 1000),
      Emit 1 (Result ''b2e2'' None 2),
      Emit 2 (Result ''h7e7'' None 1)])
   = [(1, Progress 1 30 None None [''b2e2''] 100 1000)]
     @ (2, Progress 1 (-10) None None [''h7e7''] 100 1000) # [(2, Result ''h7e7'' None 1)] \<and>
   (1::nat) < 2 \<and>
   (1::nat, Result ''b2e2'' None 2) \<notin> set [(2::nat, Result ''h7e7'' None 1)]"
proof -
  have run: "stream (dispatch freshDispatcher
     [Submit, Emit 1 (Progress 1 30 None None [''b2e2''] 100 1000), Submit,
      Emit 1 (Progress 2 25 None None [''b2e2''] 200 1000),
      Emit 2 (Progress 1 (-10) None None [''h7e7''] 100 1000),
      Emit 1 (Result ''b2e2'' None 2),
      Emit 2 (Result ''h7e7'' None 1)])
   = [(1, Progress 1 30 None None [''b2e2''] 100 1000)]
     @ (2, Progress 1 (-10) None None [''h7e7''] 100 1000) # [(2, Result ''h7e7'' None 1)]"
    by (simp add: dispatch_def freshDispatcher_def)
  have lt: "(1::nat) < 2" by simp
  show ?thesis
    by (rule conjI [OF run conjI [OF lt dispatcher_no_stale_event [OF run lt]]])
qed


section \<open>The rule engine never leaves a 10 by 9 grid\<close>

lemma okTargets_simps [simp]:
  "okTargets []"
  "okTargets (t # ts) \<longleftrightarrow> inBounds (row t) (col t) \<and> okTargets ts"
  "okTargets (ts @ us) \<longleftrightarrow> okTargets ts \<and> okTargets us"
  by (auto simp: okTargets_def)

lemma cellAt_grid:
  assumes "gridShape b" "inBounds r c"
  shows "\<exists>cell. cellAt b r c = Some cell"
proof -
  have r: "0 \<le> r" "r < 10" and c: "0 \<le> c" "c < 9" using assms(2) by (auto simp: inBounds_def)
  have len: "length b = 10" using assms(1) by (simp add: gridShape_def)
  have row: "length (b ! nat r) = 9" "list_all (\<lambda>cell. cell \<noteq> None) (b ! nat r)"
    using assms(1) r by (simp_all add: gridShape_def list_all_length)
  have "b ! nat r ! nat c \<noteq> None" using row c by (simp add: list_all_length)
  then show ?thesis using r c len row(1) by (auto simp: cellAt_def)
qed

lemma cellAt_stored:
  assumes "cellAt b r c = Some cell"
  shows "0 \<le> r" "r < int (length b)" "0 \<le> c" "c < int (length (b ! nat r))"
    "b ! nat r ! nat c = Some cell"
  using assms by (auto simp: cellAt_def split: if_splits)

lemma cellAt_hasRow: "cellAt b r c = Some cell \<Longrightarrow> hasRow b r"
  by (simp add: cellAt_def hasRow_def split: if_splits)

lemma hasRow_grid: "gridShape b \<Longrightarrow> inBounds r c \<Longrightarrow> hasRow b r"
  using cellAt_grid cellAt_hasRow by blast

lemma cellAt_wf_cell:
  assumes "wf_board b" "cellAt b r c = Some cell"
  shows "wf_cell (Some cell)"
proof -
  note at = cellAt_stored [OF assms(2)]
  have "list_all wf_cell (b ! nat r)"
    using assms(1) at(1,2) by (simp add: wf_board_def list_all_length)
  moreover have "nat c < length (b ! nat r)" using at(3,4) by simp
  ultimately have "wf_cell (b ! nat r ! nat c)" by (simp add: list_all_length)
  then show ?thesis using at(5) by simp
qed

lemma canMoveTo_total:
  assumes "gridShape b"
  shows "\<exists>ok. canMoveTo b side r c = Some ok \<and> (ok \<longrightarrow> inBounds r c)"
proof (cases "inBounds r c")
  case True
  then show ?thesis using cellAt_grid [OF assms True] by (auto simp: canMoveTo_def)
next
  case False
  then show ?thesis by (auto simp: canMoveTo_def)
qed

lemma target_total:
  assumes "gridShape b"
  shows "\<exists>ts. target b side r c = Some ts \<and> okTargets ts"
  using canMoveTo_total [OF assms, of side r c] by (auto simp: target_def)

lemma rookRay_total:
  assumes "gridShape b"
  shows "\<exists>ts. rookRay b side r c d steps = Some ts \<and> okTargets ts"
proof (induction steps)
  case Nil
  then show ?case by (cases d) simp
next
  case (Cons i steps)
  obtain dr dc where d: "d = (dr, dc)" by (cases d)
  show ?case
  proof (cases "inBounds (r + dr * i) (c + dc * i)")
    case True
    then show ?thesis using Cons d cellAt_grid [OF assms True]
      by (auto simp: Let_def split: option.splits)
  next
    case False
    then show ?thesis using d by (simp add: Let_def)
  qed
qed

lemma cannonRay_total:
  assumes "gridShape b"
  shows "\<exists>ts. cannonRay b side r c d jumped steps = Some ts \<and> okTargets ts"
proof (induction steps arbitrary: jumped)
  case Nil
  then show ?case by (cases d) simp
next
  case (Cons i steps)
  obtain dr dc where d: "d = (dr, dc)" by (cases d)
  show ?case
  proof (cases "inBounds (r + dr * i) (c + dc * i)")
    case True
    then show ?thesis
      using Cons [of True] Cons [of False] d cellAt_grid [OF assms True] hasRow_grid [OF assms True]
      by (auto simp: Let_def split: option.splits)
  next
    case False
    then show ?thesis using d by (simp add: Let_def)
  qed
qed

lemma knightStep_total:
  assumes "gridShape b"
  shows "\<exists>ts. knightStep b side r c m = Some ts \<and> okTargets ts"
proof -
  obtain dr dc blockR blockC where m: "m = (dr, dc, blockR, blockC)" by (cases m)
  show ?thesis
  proof (cases "inBounds (r + blockR) (c + blockC)")
    case True
    then show ?thesis
      using m cellAt_grid [OF assms True] hasRow_grid [OF assms True]
        target_total [OF assms, of side "r + dr" "c + dc"]
      by (auto simp: knightStep_def Let_def)
  next
    case False
    then show ?thesis using m by (simp add: knightStep_def Let_def)
  qed
qed

lemma elephantStep_total:
  assumes "gridShape b"
  shows "\<exists>ts. elephantStep b side r c m = Some ts \<and> okTargets ts"
proof -
  obtain dr dc blockR blockC where m: "m = (dr, dc, blockR, blockC)" by (cases m)
  show ?thesis
  proof (cases "inBounds (r + blockR) (c + blockC)")
    case True
    then show ?thesis
      using m cellAt_grid [OF assms True] hasRow_grid [OF assms True]
        target_total [OF assms, of side "r + dr" "c + dc"]
      by (auto simp: elephantStep_def Let_def)
  next
    case False
    then show ?thesis using m by (simp add: elephantStep_def Let_def)
  qed
qed

lemma palaceStep_total:
  assumes "gridShape b"
  shows "\<exists>ts. palaceStep b side r c d = Some ts \<and> okTargets ts"
proof -
  obtain dr dc where d: "d = (dr, dc)" by (cases d)
  show ?thesis
    using d target_total [OF assms, of side "r + dr" "c + dc"]
    by (auto simp: palaceStep_def Let_def)
qed

lemma flyingScan_total:
  assumes "gridShape b" "0 \<le> c" "c < 9"
  shows "\<exists>ts. flyingScan b king c rows = Some ts \<and> okTargets ts"
proof (induction rows)
  case Nil
  then show ?case by simp
next
  case (Cons r rows)
  show ?case
  proof (cases "r \<ge> 0 \<and> r < 10")
    case True
    then have ib: "inBounds r c" using assms by (simp add: inBounds_def)
    show ?thesis using True ib Cons cellAt_grid [OF assms(1) ib] hasRow_grid [OF assms(1) ib]
      by (auto split: option.splits)
  next
    case False
    then show ?thesis by auto
  qed
qed

lemma collect_total:
  assumes "\<And>x. x \<in> set xs \<Longrightarrow> \<exists>ys. f x = Some ys \<and> list_all P ys"
  shows "\<exists>zs. collect f xs = Some zs \<and> list_all P zs"
  using assms
proof (induction xs)
  case Nil
  then show ?case by (simp add: collect.simps)
next
  case (Cons x xs)
  obtain ys where ys: "f x = Some ys" "list_all P ys" using Cons.prems [of x] by auto
  obtain zs where zs: "collect f xs = Some zs" "list_all P zs" using Cons by auto
  show ?case using ys zs by (simp add: collect.simps)
qed

lemma collect_okTargets:
  assumes "\<And>x. x \<in> set xs \<Longrightarrow> \<exists>ys. f x = Some ys \<and> okTargets ys"
  shows "\<exists>zs. collect f xs = Some zs \<and> okTargets zs"
  using collect_total [of xs f "\<lambda>t. inBounds (row t) (col t)"] assms
  by (simp add: okTargets_def)

lemma collect_member:
  "collect f xs = Some zs \<Longrightarrow>
   z \<in> set zs \<longleftrightarrow> (\<exists>x \<in> set xs. \<exists>ys. f x = Some ys \<and> z \<in> set ys)"
proof (induction xs arbitrary: zs)
  case Nil
  then show ?case by (simp add: collect.simps)
next
  case (Cons x xs)
  then show ?case by (auto simp: collect.simps split: bind_splits)
qed

lemma collect_Nil:
  "(\<And>x. x \<in> set xs \<Longrightarrow> f x = Some []) \<Longrightarrow> collect f xs = Some []"
  by (induction xs) (simp_all add: collect.simps)

lemma rookTargets_total:
  "gridShape b \<Longrightarrow> \<exists>ts. rookTargets b side r c = Some ts \<and> okTargets ts"
  unfolding rookTargets_def by (rule collect_okTargets) (rule rookRay_total)

lemma cannonTargets_total:
  "gridShape b \<Longrightarrow> \<exists>ts. cannonTargets b side r c = Some ts \<and> okTargets ts"
  unfolding cannonTargets_def by (rule collect_okTargets) (rule cannonRay_total)

lemma knightTargets_total:
  "gridShape b \<Longrightarrow> \<exists>ts. knightTargets b side r c = Some ts \<and> okTargets ts"
  unfolding knightTargets_def by (rule collect_okTargets) (rule knightStep_total)

lemma elephantTargets_total:
  "gridShape b \<Longrightarrow> \<exists>ts. elephantTargets b side r c = Some ts \<and> okTargets ts"
  unfolding elephantTargets_def by (rule collect_okTargets) (rule elephantStep_total)

lemma advisorTargets_total:
  "gridShape b \<Longrightarrow> \<exists>ts. advisorTargets b side r c = Some ts \<and> okTargets ts"
  unfolding advisorTargets_def by (rule collect_okTargets) (rule palaceStep_total)

lemma kingTargets_total:
  assumes "gridShape b" "0 \<le> c" "c < 9"
  shows "\<exists>ts. kingTargets b side r c = Some ts \<and> okTargets ts"
proof -
  have palace: "\<exists>ts. collect (palaceStep b side r c) ds = Some ts \<and> okTargets ts" for ds
    by (rule collect_okTargets) (rule palaceStep_total [OF assms(1)])
  have flying: "\<exists>ts. collect (\<lambda>dir. flyingScan b k c (map (\<lambda>i. r + dir * i) [1..10])) dirs
                      = Some ts \<and> okTargets ts" for k dirs
    by (rule collect_okTargets) (rule flyingScan_total [OF assms])
  obtain ss where ss:
    "collect (palaceStep b side r c) [(0, 1), (0, -1), (1, 0), (-1, 0)] = Some ss" "okTargets ss"
    using palace by blast
  obtain fs where fs:
    "collect (\<lambda>dir. flyingScan b (if side = ''w'' then CHR ''k'' else CHR ''K'') c
                       (map (\<lambda>i. r + dir * i) [1..10])) [-1, 1] = Some fs" "okTargets fs"
    using flying by blast
  show ?thesis unfolding kingTargets_def using ss fs by simp
qed

lemma pawnTargets_total:
  assumes "gridShape b"
  shows "\<exists>ts. pawnTargets b side r c = Some ts \<and> okTargets ts"
proof -
  obtain f1 where f1: "target b side (r - 1) c = Some f1" "okTargets f1"
    using target_total [OF assms] by blast
  obtain f2 where f2: "target b side (r + 1) c = Some f2" "okTargets f2"
    using target_total [OF assms] by blast
  obtain l where l: "target b side r (c - 1) = Some l" "okTargets l"
    using target_total [OF assms] by blast
  obtain rt where rt: "target b side r (c + 1) = Some rt" "okTargets rt"
    using target_total [OF assms] by blast
  show ?thesis unfolding pawnTargets_def using f1 f2 l rt
    by (cases "side = ''w''"; cases "ownHalf r side"; simp)
qed

lemma generatePieceMoves_total:
  assumes "gridShape b" "inBounds r c"
  shows "\<exists>ts. generatePieceMoves b r c piece = Some ts \<and> okTargets ts"
proof -
  have c: "0 \<le> c" "c < 9" using assms(2) by (auto simp: inBounds_def)
  show ?thesis
    unfolding generatePieceMoves_def Let_def
    using rookTargets_total [OF assms(1)] cannonTargets_total [OF assms(1)]
      knightTargets_total [OF assms(1)] elephantTargets_total [OF assms(1)]
      advisorTargets_total [OF assms(1)] kingTargets_total [OF assms(1) c]
      pawnTargets_total [OF assms(1)]
    by simp
qed

lemma allSquares_inBounds: "(r, c) \<in> set allSquares \<longleftrightarrow> inBounds r c"
  by (force simp: allSquares_def inBounds_def)

subsection \<open>Moving a piece on the grid\<close>

lemma setCell_grid:
  assumes "gridShape b" "inBounds r c"
  shows "\<exists>b'. setCell b r c (Some v) = Some b' \<and> gridShape b' \<and>
              (\<forall>r' c'. inBounds r' c' \<longrightarrow>
                 cellAt b' r' c' = (if r' = r \<and> c' = c then Some v else cellAt b r' c'))"
proof -
  have r: "0 \<le> r" "r < 10" and c: "0 \<le> c" "c < 9" using assms(2) by (auto simp: inBounds_def)
  have len: "length b = 10" using assms(1) by (simp add: gridShape_def)
  have rows: "\<And>i. i < 10 \<Longrightarrow> length (b ! i) = 9"
    using assms(1) by (simp add: gridShape_def list_all_length)
  have stored: "\<And>i j. i < 10 \<Longrightarrow> j < 9 \<Longrightarrow> b ! i ! j \<noteq> None"
    using assms(1) by (simp add: gridShape_def list_all_length)
  let ?b' = "b[nat r := (b ! nat r)[nat c := Some v]]"
  have nat: "nat r < 10" "nat c < 9" using r c by simp_all
  have set: "setCell b r c (Some v) = Some ?b'"
    using r c nat len rows [of "nat r"] by (simp add: setCell_def hasRow_def Let_def)
  have shape: "gridShape ?b'"
    unfolding gridShape_def list_all_length
  proof (intro conjI allI impI)
    show "length ?b' = 10" using len by simp
  next
    fix i assume "i < length ?b'"
    then show "length (?b' ! i) = 9"
      using len rows [of i] rows [of "nat r"] nat by (cases "i = nat r") simp_all
  next
    fix i j assume "i < length ?b'" "j < length (?b' ! i)"
    then have "i < 10" "j < 9"
      using len rows [of i] rows [of "nat r"] nat by (cases "i = nat r"; simp)+
    then show "?b' ! i ! j \<noteq> None"
      using stored [of i j] len rows [of i] nat
      by (cases "i = nat r"; cases "j = nat c"; simp)
  qed
  have cells: "cellAt ?b' r' c' = (if r' = r \<and> c' = c then Some v else cellAt b r' c')"
    if "inBounds r' c'" for r' c'
  proof -
    have r': "0 \<le> r'" "r' < 10" and c': "0 \<le> c'" "c' < 9"
      using that by (auto simp: inBounds_def)
    show ?thesis
      using r c r' c' len rows [of "nat r"] rows [of "nat r'"]
      by (auto simp: cellAt_def nth_list_update nat_eq_iff)
  qed
  show ?thesis using set shape cells by blast
qed

lemma movePiece_grid:
  assumes "gridShape b" "inBounds (row from) (col from)" "inBounds (row to) (col to)"
  shows "\<exists>b'. movePiece b from to = Some b' \<and> gridShape b' \<and>
              (\<forall>r c. inBounds r c \<longrightarrow>
                 cellAt b' r c =
                   (if r = row from \<and> c = col from then Some None
                    else if r = row to \<and> c = col to then cellAt b (row from) (col from)
                    else cellAt b r c))"
proof -
  obtain piece where piece: "cellAt b (row from) (col from) = Some piece"
    using cellAt_grid [OF assms(1,2)] by blast
  obtain b1 where b1: "setCell b (row to) (col to) (Some piece) = Some b1" "gridShape b1"
    "\<And>r c. inBounds r c \<Longrightarrow>
       cellAt b1 r c = (if r = row to \<and> c = col to then Some piece else cellAt b r c)"
    using setCell_grid [OF assms(1,3), of piece] by blast
  obtain b2 where b2: "setCell b1 (row from) (col from) (Some None) = Some b2" "gridShape b2"
    "\<And>r c. inBounds r c \<Longrightarrow>
       cellAt b2 r c = (if r = row from \<and> c = col from then Some None else cellAt b1 r c)"
    using setCell_grid [OF b1(2) assms(2), of None] by blast
  have "movePiece b from to = Some b2"
    using piece b1(1) b2(1) hasRow_grid [OF assms(1,2)] by (simp add: movePiece_def)
  then show ?thesis using b2(2,3) b1(3) piece by auto
qed

subsection \<open>The searches over all squares\<close>

lemma findKingIn_total:
  assumes "gridShape b" "\<And>r c. (r, c) \<in> set xs \<Longrightarrow> inBounds r c"
  shows "\<exists>res. findKingIn b king xs = Some res"
  using assms(2)
proof (induction xs)
  case Nil
  then show ?case by simp
next
  case (Cons x xs)
  obtain r c where x: "x = (r, c)" by (cases x)
  have "inBounds r c" using Cons.prems x by simp
  then show ?case using x Cons hasRow_grid [OF assms(1)] by auto
qed

lemma findKingIn_None:
  "findKingIn b king xs = Some None \<Longrightarrow> (r, c) \<in> set xs \<Longrightarrow> cellAt b r c \<noteq> Some (Some king)"
proof (induction xs)
  case Nil
  then show ?case by simp
next
  case (Cons x xs)
  then show ?case by (cases x) (auto split: if_splits)
qed

lemma findKingIn_None_intro:
  assumes "\<And>r c. (r, c) \<in> set xs \<Longrightarrow> \<exists>cell. cellAt b r c = Some cell \<and> cell \<noteq> Some king"
  shows "findKingIn b king xs = Some None"
  using assms
proof (induction xs)
  case Nil
  then show ?case by simp
next
  case (Cons x xs)
  obtain r c where x: "x = (r, c)" by (cases x)
  obtain cell where "cellAt b r c = Some cell" "cell \<noteq> Some king"
    using Cons.prems [of r c] x by auto
  then show ?case using x Cons cellAt_hasRow [of b r c cell] by auto
qed

lemma findKing_total: "gridShape b \<Longrightarrow> \<exists>res. findKing b side = Some res"
  unfolding findKing_def using findKingIn_total [of b allSquares] allSquares_inBounds by blast

lemma isUnderAttackIn_total:
  assumes "gridShape b" "\<And>r c. (r, c) \<in> set xs \<Longrightarrow> inBounds r c"
  shows "\<exists>res. isUnderAttackIn b sq side xs = Some res"
  using assms(2)
proof (induction xs)
  case Nil
  then show ?case by auto
next
  case (Cons x xs)
  obtain r c where x: "x = (r, c)" by (cases x)
  have ib: "inBounds r c" using Cons.prems x by simp
  obtain res where res: "isUnderAttackIn b sq side xs = Some res" using Cons by auto
  have ts: "\<exists>ts. generatePieceMoves b r c p = Some ts" for p
    using generatePieceMoves_total [OF assms(1) ib] by blast
  obtain cell where cell: "cellAt b r c = Some cell" using cellAt_grid [OF assms(1) ib] by blast
  show ?case
  proof (cases cell)
    case None
    then show ?thesis using x res cell by simp
  next
    case (Some p)
    obtain ms where "generatePieceMoves b r c p = Some ms" using ts by blast
    then show ?thesis using x res cell Some by auto
  qed
qed

lemma isUnderAttack_total: "gridShape b \<Longrightarrow> \<exists>res. isUnderAttack b sq side = Some res"
  unfolding isUnderAttack_def using isUnderAttackIn_total [of b allSquares] allSquares_inBounds
  by blast


lemma list_ex_square:
  "list_ex (\<lambda>m. row m = row sq \<and> col m = col sq) ms \<longleftrightarrow> (sq :: Square) \<in> set ms"
  by (induction ms) auto

lemma isUnderAttackIn_eq:
  "isUnderAttackIn b sq side xs = Some res \<Longrightarrow>
   res = list_ex (\<lambda>(r, c).
           case cellAt b r c of
             Some (Some q) \<Rightarrow>
               pieceColor q = side \<and>
               (case generatePieceMoves b r c q of Some ts \<Rightarrow> sq \<in> set ts | None \<Rightarrow> False)
           | _ \<Rightarrow> False) xs"
proof (induction xs)
  case Nil
  then show ?case by simp
next
  case (Cons x xs)
  obtain r c where x: "x = (r, c)" by (cases x)
  show ?case using Cons x
    by (auto simp: list_ex_square split: bind_splits option.splits if_splits)
qed

lemma isUnderAttack_eq:
  "isUnderAttack b sq side = Some res \<Longrightarrow> res = attackedBy b sq side"
  unfolding isUnderAttack_def attackedBy_def by (rule isUnderAttackIn_eq)

subsection \<open>The legal-move generator\<close>

lemma keepsKingSafe_total:
  assumes "gridShape b" "inBounds r c" "inBounds (row to) (col to)"
  shows "\<exists>ms. keepsKingSafe b side r c to = Some ms"
proof -
  obtain nb where nb: "movePiece b \<lparr>row = r, col = c\<rparr> to = Some nb" "gridShape nb"
    using movePiece_grid [OF assms(1), of "\<lparr>row = r, col = c\<rparr>" to] assms(2,3) by auto
  obtain k where k: "findKing nb side = Some k" using findKing_total [OF nb(2)] by blast
  show ?thesis
  proof (cases k)
    case None
    then show ?thesis using nb k by (simp add: keepsKingSafe_def)
  next
    case (Some sq)
    obtain att where "isUnderAttack nb sq (if side = ''w'' then ''b'' else ''w'') = Some att"
      using isUnderAttack_total [OF nb(2)] by blast
    then show ?thesis using nb k Some by (simp add: keepsKingSafe_def)
  qed
qed


lemma movesFrom_total:
  assumes "gridShape b" "inBounds r c"
  shows "\<exists>ms. movesFrom b side (r, c) = Some ms"
proof -
  obtain cell where cell: "cellAt b r c = Some cell" using cellAt_grid [OF assms] by blast
  show ?thesis
  proof (cases cell)
  case None
  then show ?thesis using cell by (simp add: movesFrom_def)
next
  case (Some p)
  obtain ts where ts: "generatePieceMoves b r c p = Some ts" "okTargets ts"
    using generatePieceMoves_total [OF assms] by blast
  have "\<exists>ms. collect (keepsKingSafe b side r c) ts = Some ms \<and> list_all (\<lambda>m. True) ms"
  proof (rule collect_total)
    fix to assume "to \<in> set ts"
    then have "inBounds (row to) (col to)" using ts(2) by (simp add: okTargets_def list_all_iff)
    then show "\<exists>ys. keepsKingSafe b side r c to = Some ys \<and> list_all (\<lambda>m. True) ys"
      using keepsKingSafe_total [OF assms] by (simp add: list_all_iff)
  qed
  then show ?thesis using cell Some ts by (auto simp: movesFrom_def)
qed
qed


lemma generateLegalMoves_total:
  assumes "gridShape (board pos)"
  shows "\<exists>ms. generateLegalMoves pos = Some ms"
proof -
  have "\<exists>ms. collect (movesFrom (board pos) (turn pos)) allSquares = Some ms
             \<and> list_all (\<lambda>m. True) ms"
  proof (rule collect_total)
    fix x assume x: "x \<in> set allSquares"
    obtain r c where rc: "x = (r, c)" by (cases x)
    then have "inBounds r c" using x allSquares_inBounds by simp
    then show "\<exists>ys. movesFrom (board pos) (turn pos) x = Some ys \<and> list_all (\<lambda>m. True) ys"
      using movesFrom_total [OF assms] rc by (simp add: list_all_iff)
  qed
  then show ?thesis by (auto simp: generateLegalMoves_def)
qed





section \<open>Positions without the mover's general\<close>

lemma findKing_no_general:
  assumes "gridShape b" "\<not> hasGeneral b side"
  shows "findKing b side = Some None"
  unfolding findKing_def
proof (rule findKingIn_None_intro)
  fix r c assume "(r, c) \<in> set allSquares"
  then have "cellAt b r c \<noteq> Some (Some (generalOf side))"
    using assms(2) by (auto simp: hasGeneral_def list_ex_iff)
  moreover have "\<exists>cell. cellAt b r c = Some cell"
    using \<open>(r, c) \<in> set allSquares\<close> cellAt_grid [OF assms(1)] allSquares_inBounds by simp
  ultimately show "\<exists>cell. cellAt b r c = Some cell \<and>
                     cell \<noteq> Some (if side = ''w'' then CHR ''K'' else CHR ''k'')"
    by (auto simp: generalOf_def)
qed

lemma hasGeneral_after_move:
  assumes "gridShape b" "\<not> hasGeneral b side"
    and "inBounds (row from) (col from)" "inBounds (row to) (col to)"
    and "movePiece b from to = Some nb"
  shows "gridShape nb \<and> \<not> hasGeneral nb side"
proof -
  obtain b' where b': "movePiece b from to = Some b'" "gridShape b'"
    "\<And>r c. inBounds r c \<Longrightarrow>
       cellAt b' r c =
         (if r = row from \<and> c = col from then Some None
          else if r = row to \<and> c = col to then cellAt b (row from) (col from)
          else cellAt b r c)"
    using movePiece_grid [OF assms(1,3,4)] by blast
  have nb: "nb = b'" using b'(1) assms(5) by simp
  have old: "cellAt b r c \<noteq> Some (Some (generalOf side))" if "inBounds r c" for r c
    using assms(2) that allSquares_inBounds [of r c] by (auto simp: hasGeneral_def list_ex_iff)
  have "cellAt b' r c \<noteq> Some (Some (generalOf side))" if "inBounds r c" for r c
    using b'(3) [OF that] old [OF that] old [OF assms(3)] by auto
  then have "\<not> hasGeneral b' side"
    using allSquares_inBounds by (auto simp: hasGeneral_def list_ex_iff)
  then show ?thesis using nb b'(2) by simp
qed

lemma keepsKingSafe_no_general:
  assumes "gridShape b" "\<not> hasGeneral b side" "inBounds r c" "inBounds (row to) (col to)"
  shows "keepsKingSafe b side r c to = Some []"
proof -
  obtain nb where nb: "movePiece b \<lparr>row = r, col = c\<rparr> to = Some nb"
    using movePiece_grid [OF assms(1), of "\<lparr>row = r, col = c\<rparr>" to] assms(3,4) by auto
  have "gridShape nb \<and> \<not> hasGeneral nb side"
    using hasGeneral_after_move [OF assms(1,2) _ assms(4) nb] assms(3) by simp
  then have "findKing nb side = Some None" using findKing_no_general by blast
  then show ?thesis using nb by (simp add: keepsKingSafe_def)
qed

lemma movesFrom_no_general:
  assumes "gridShape b" "\<not> hasGeneral b side" "inBounds r c"
  shows "movesFrom b side (r, c) = Some []"
proof -
  obtain cell where cell: "cellAt b r c = Some cell" using cellAt_grid [OF assms(1,3)] by blast
  show ?thesis
  proof (cases cell)
  case None
  then show ?thesis using cell by (simp add: movesFrom_def)
next
  case (Some p)
  obtain ts where ts: "generatePieceMoves b r c p = Some ts" "okTargets ts"
    using generatePieceMoves_total [OF assms(1,3)] by blast
  have "collect (keepsKingSafe b side r c) ts = Some []"
  proof (rule collect_Nil)
    fix to assume "to \<in> set ts"
    then have "inBounds (row to) (col to)" using ts(2) by (simp add: okTargets_def list_all_iff)
    then show "keepsKingSafe b side r c to = Some []"
      using keepsKingSafe_no_general [OF assms] by simp
  qed
  then show ?thesis using cell Some ts by (simp add: movesFrom_def)
qed
qed

text \<open>
  C10. On a 10 by 9 board where the side to move has no general: \<open>isInCheck\<close> is false,
  the legal-move list is empty (every candidate is discarded because the general is not
  found on the resulting board), \<open>isStalemate\<close> is true and \<open>isCheckmate\<close> is false.
\<close>

theorem no_general_is_stalemate:
  assumes "gridShape (board pos)" "\<not> hasGeneral (board pos) (turn pos)"
  shows "isInCheck pos = Some False \<and> generateLegalMoves pos = Some [] \<and>
         isStalemate pos = Some True \<and> isCheckmate pos = Some False"
proof -
  have chk: "isInCheck pos = Some False"
    using findKing_no_general [OF assms] by (simp add: isInCheck_def)
  have "collect (movesFrom (board pos) (turn pos)) allSquares = Some []"
  proof (rule collect_Nil)
    fix x assume x: "x \<in> set allSquares"
    obtain r c where rc: "x = (r, c)" by (cases x)
    then have "inBounds r c" using x allSquares_inBounds by simp
    then show "movesFrom (board pos) (turn pos) x = Some []"
      using movesFrom_no_general [OF assms] rc by simp
  qed
  then have legal: "generateLegalMoves pos = Some []" by (simp add: generateLegalMoves_def)
  show ?thesis using chk legal by (simp add: isStalemate_def isCheckmate_def)
qed

theorem no_general_is_stalemate_witness:
  "gridShape (board (parseFen ''4k4/9/9/9/9/9/9/9/R8/9 w'')) \<and>
   \<not> hasGeneral (board (parseFen ''4k4/9/9/9/9/9/9/9/R8/9 w''))
       (turn (parseFen ''4k4/9/9/9/9/9/9/9/R8/9 w'')) \<and>
   isInCheck (parseFen ''4k4/9/9/9/9/9/9/9/R8/9 w'') = Some False \<and>
   generateLegalMoves (parseFen ''4k4/9/9/9/9/9/9/9/R8/9 w'') = Some [] \<and>
   isStalemate (parseFen ''4k4/9/9/9/9/9/9/9/R8/9 w'') = Some True \<and>
   isCheckmate (parseFen ''4k4/9/9/9/9/9/9/9/R8/9 w'') = Some False"
proof -
  have g: "gridShape (board (parseFen ''4k4/9/9/9/9/9/9/9/R8/9 w''))" by code_simp
  have n: "\<not> hasGeneral (board (parseFen ''4k4/9/9/9/9/9/9/9/R8/9 w''))
             (turn (parseFen ''4k4/9/9/9/9/9/9/9/R8/9 w''))" by code_simp
  show ?thesis by (rule conjI [OF g conjI [OF n no_general_is_stalemate [OF g n]]])
qed


section \<open>The flying-general capture\<close>

lemma flyingScan_hits:
  assumes "gridShape b" "0 \<le> c" "c < 9" "j \<le> d" "d \<le> 10"
    and "\<And>i. j \<le> i \<Longrightarrow> i < d \<Longrightarrow>
              0 \<le> r + dir * i \<and> r + dir * i < 10 \<and> cellAt b (r + dir * i) c = Some None"
    and "0 \<le> r + dir * d" "r + dir * d < 10"
    and "cellAt b (r + dir * d) c = Some (Some king)"
  shows "flyingScan b king c (map (\<lambda>i. r + dir * i) [j..10]) = Some [\<lparr>row = r + dir * d, col = c\<rparr>]"
  using assms(4,6)
proof (induction "nat (d - j)" arbitrary: j)
  case 0
  then have j: "j = d" by simp
  have "[d..10] = d # [d + 1..10]" using assms(5) by (simp add: upto_rec1)
  then show ?case using j assms(7,8,9) cellAt_hasRow [OF assms(9)] by simp
next
  case (Suc n)
  then have lt: "j < d" by simp
  have up: "[j..10] = j # [j + 1..10]" using lt assms(5) by (simp add: upto_rec1)
  have here: "0 \<le> r + dir * j" "r + dir * j < 10" "cellAt b (r + dir * j) c = Some None"
    using Suc.prems(2) [of j] lt by simp_all
  have "flyingScan b king c (map (\<lambda>i. r + dir * i) [j + 1..10])
          = Some [\<lparr>row = r + dir * d, col = c\<rparr>]"
  proof (rule Suc.hyps(1))
    show "n = nat (d - (j + 1))" using Suc.hyps(2) by simp
    show "j + 1 \<le> d" using lt by simp
    show "\<And>i. j + 1 \<le> i \<Longrightarrow> i < d \<Longrightarrow>
           0 \<le> r + dir * i \<and> r + dir * i < 10 \<and> cellAt b (r + dir * i) c = Some None"
      using Suc.prems(2) by simp
  qed
  then show ?case using up here cellAt_hasRow [OF here(3)] by simp
qed

lemma pieceColor_generals [simp]:
  "pieceColor CHR ''K'' = ''w''" "pieceColor CHR ''k'' = ''b''"
  "toLowerCase CHR ''K'' = CHR ''k''" "toLowerCase CHR ''k'' = CHR ''k''"
  by code_simp+

lemma kingTargets_flying:
  assumes "gridShape b" "inBounds r c" "inBounds tr c" "tr \<noteq> r"
    and "\<And>i. (r < i \<and> i < tr) \<or> (tr < i \<and> i < r) \<Longrightarrow> cellAt b i c = Some None"
    and "cellAt b tr c = Some (Some (if side = ''w'' then CHR ''k'' else CHR ''K''))"
  shows "\<exists>ts. kingTargets b side r c = Some ts \<and> \<lparr>row = tr, col = c\<rparr> \<in> set ts"
proof -
  let ?king = "if side = ''w'' then CHR ''k'' else CHR ''K''"
  let ?scan = "\<lambda>dir. flyingScan b ?king c (map (\<lambda>i. r + dir * i) [1..10])"
  have c: "0 \<le> c" "c < 9" and r: "0 \<le> r" "r < 10" and tr: "0 \<le> tr" "tr < 10"
    using assms(2,3) by (auto simp: inBounds_def)
  obtain ts where ts: "kingTargets b side r c = Some ts"
    using kingTargets_total [OF assms(1) c] by blast
  then obtain steps flying where parts:
    "collect ?scan [-1, 1] = Some flying" "ts = steps @ flying"
    by (auto simp: kingTargets_def split: bind_splits)
  define dir :: int where "dir = (if r < tr then 1 else -1)"
  define d where "d = \<bar>tr - r\<bar>"
  have target: "r + dir * d = tr" using assms(4) by (auto simp: dir_def d_def)
  have d: "1 \<le> d" "d \<le> 10" using assms(4) r tr by (auto simp: d_def)
  have between: "0 \<le> r + dir * i \<and> r + dir * i < 10 \<and> cellAt b (r + dir * i) c = Some None"
    if "1 \<le> i" "i < d" for i
  proof -
    have "(r < r + dir * i \<and> r + dir * i < tr) \<or> (tr < r + dir * i \<and> r + dir * i < r)"
      using that by (auto simp: dir_def d_def)
    then show ?thesis using assms(5) [of "r + dir * i"] r tr by auto
  qed
  have "?scan dir = Some [\<lparr>row = r + dir * d, col = c\<rparr>]"
    using flyingScan_hits [OF assms(1) c d(1,2), of r dir ?king] between target tr assms(6)
    by simp
  then have hit: "?scan dir = Some [\<lparr>row = tr, col = c\<rparr>]" using target by simp
  have "dir \<in> set [-1, 1]" by (simp add: dir_def)
  then have "\<lparr>row = tr, col = c\<rparr> \<in> set flying"
    using collect_member [OF parts(1), of "\<lparr>row = tr, col = c\<rparr>"] hit by fastforce
  then show ?thesis using ts parts(2) by simp
qed


lemma generalOf_facts:
  assumes "side = ''w'' \<or> side = ''b''"
  shows "pieceColor (generalOf side) = side" "toLowerCase (generalOf side) = CHR ''k''"
    "generalOf (opponent side) = (if side = ''w'' then CHR ''k'' else CHR ''K'')"
    "opponent side \<noteq> side"
  using assms by (auto simp: generalOf_def opponent_def)

lemma flying_capture_side:
  assumes grid: "gridShape b"
    and side: "side = ''w'' \<or> side = ''b''"
    and own: "inBounds (row own) (col own)" and opp: "inBounds (row opp) (col opp)"
    and samefile: "col own = col opp" and apart: "row own \<noteq> row opp"
    and cells: "\<And>r c. inBounds r c \<Longrightarrow>
        cellAt b r c =
          Some (if r = row own \<and> c = col own then Some (generalOf side)
                else if r = row opp \<and> c = col opp then Some (generalOf (opponent side))
                else None)"
  shows "\<exists>ms. generateLegalMoves \<lparr>board = b, turn = side\<rparr> = Some ms \<and>
              \<lparr>mv_from = own, mv_to = opp\<rparr> \<in> set ms"
proof -
  let ?r = "row own" and ?c = "col own"
  have own_eq: "\<lparr>row = ?r, col = ?c\<rparr> = own" and opp_eq: "\<lparr>row = row opp, col = ?c\<rparr> = opp"
    using samefile by simp_all
  have own_cell: "cellAt b ?r ?c = Some (Some (generalOf side))" using cells [OF own] by simp
  have opp_cell: "cellAt b (row opp) ?c = Some (Some (if side = ''w'' then CHR ''k'' else CHR ''K''))"
    using cells [OF opp] apart samefile generalOf_facts(3) [OF side] by simp
  have between: "cellAt b i ?c = Some None"
    if "(?r < i \<and> i < row opp) \<or> (row opp < i \<and> i < ?r)" for i
  proof -
    have "inBounds i ?c" using that own opp by (auto simp: inBounds_def)
    then show ?thesis using cells [of i ?c] that by auto
  qed
  have gen: "generatePieceMoves b ?r ?c (generalOf side) = kingTargets b side ?r ?c"
    using generalOf_facts(1,2) [OF side] by (simp add: generatePieceMoves_def)
  have tr: "inBounds (row opp) ?c" "row opp \<noteq> ?r" using opp samefile apart by simp_all
  obtain ts where ts0: "kingTargets b side ?r ?c = Some ts" "\<lparr>row = row opp, col = ?c\<rparr> \<in> set ts"
    using kingTargets_flying [OF grid own tr between opp_cell] by blast
  have ts: "generatePieceMoves b ?r ?c (generalOf side) = Some ts" "opp \<in> set ts"
    using ts0 gen opp_eq by simp_all
  \<comment> \<open>the board after the capture holds the mover's general alone\<close>
  obtain nb where nb: "movePiece b \<lparr>row = ?r, col = ?c\<rparr> opp = Some nb" "gridShape nb"
    "\<And>r c. inBounds r c \<Longrightarrow>
       cellAt nb r c = (if r = row opp \<and> c = col opp then Some (Some (generalOf side))
                        else Some None)"
  proof -
    obtain b' where b': "movePiece b own opp = Some b' \<and> gridShape b' \<and>
       (\<forall>r c. inBounds r c \<longrightarrow>
         cellAt b' r c =
           (if r = row own \<and> c = col own then Some None
            else if r = row opp \<and> c = col opp then cellAt b (row own) (col own)
            else cellAt b r c))"
      using movePiece_grid [OF grid own opp] by blast
    have "cellAt b' r c = (if r = row opp \<and> c = col opp then Some (Some (generalOf side))
                           else Some None)" if "inBounds r c" for r c
      using b' that cells [OF that] own_cell apart by auto
    then show ?thesis using that [of b'] b' own_eq by simp
  qed
  obtain res where res: "findKing nb side = Some res" using findKing_total [OF nb(2)] by blast
  have "res \<noteq> None"
  proof
    assume "res = None"
    then have "findKingIn nb (if side = ''w'' then CHR ''K'' else CHR ''k'') allSquares = Some None"
      using res by (simp add: findKing_def)
    then have "cellAt nb (row opp) (col opp) \<noteq> Some (Some (generalOf side))"
      using findKingIn_None [of nb _ allSquares "row opp" "col opp"] opp allSquares_inBounds
      by (simp add: generalOf_def)
    then show False using nb(3) [OF opp] by simp
  qed
  then obtain k where k: "findKing nb side = Some (Some k)" using res by auto
  obtain att where att: "isUnderAttack nb k (opponent side) = Some att"
    using isUnderAttack_total [OF nb(2)] by blast
  have "\<not> attackedBy nb k (opponent side)"
    unfolding attackedBy_def list_ex_iff
  proof
    assume "\<exists>x \<in> set allSquares. case x of (r, c) \<Rightarrow>
              (case cellAt nb r c of
                 Some (Some q) \<Rightarrow> pieceColor q = opponent side \<and>
                   (case generatePieceMoves nb r c q of Some ts \<Rightarrow> k \<in> set ts | None \<Rightarrow> False)
               | _ \<Rightarrow> False)"
    then obtain r c where rc: "(r, c) \<in> set allSquares"
      "case cellAt nb r c of
         Some (Some q) \<Rightarrow> pieceColor q = opponent side \<and>
           (case generatePieceMoves nb r c q of Some ts \<Rightarrow> k \<in> set ts | None \<Rightarrow> False)
       | _ \<Rightarrow> False"
      by auto
    have "inBounds r c" using rc(1) allSquares_inBounds by simp
    then show False
      using rc(2) nb(3) [of r c] generalOf_facts(1,4) [OF side] by (auto split: if_splits)
  qed
  then have safe: "isUnderAttack nb k (opponent side) = Some False"
    using att isUnderAttack_eq [OF att] by simp
  have keep: "keepsKingSafe b side ?r ?c opp =
                Some [\<lparr>mv_from = \<lparr>row = ?r, col = ?c\<rparr>, mv_to = opp\<rparr>]"
    using nb(1) k safe by (simp add: keepsKingSafe_def opponent_def)
  obtain ms1 where ms1: "movesFrom b side (?r, ?c) = Some ms1"
    using movesFrom_total [OF grid own] by blast
  then have c1: "collect (keepsKingSafe b side ?r ?c) ts = Some ms1"
    using own_cell ts(1) generalOf_facts(1) [OF side] by (simp add: movesFrom_def)
  have "\<exists>x \<in> set ts. \<exists>ys. keepsKingSafe b side ?r ?c x = Some ys \<and>
           \<lparr>mv_from = own, mv_to = opp\<rparr> \<in> set ys"
    using ts(2) keep own_eq by (intro bexI [of _ opp]) simp_all
  then have in1: "\<lparr>mv_from = own, mv_to = opp\<rparr> \<in> set ms1"
    using collect_member [OF c1, of "\<lparr>mv_from = own, mv_to = opp\<rparr>"] by simp
  obtain ms where ms: "generateLegalMoves \<lparr>board = b, turn = side\<rparr> = Some ms"
    using generateLegalMoves_total [of "\<lparr>board = b, turn = side\<rparr>"] grid by auto
  then have c2: "collect (movesFrom b side) allSquares = Some ms"
    by (simp add: generateLegalMoves_def)
  have "(?r, ?c) \<in> set allSquares" using own allSquares_inBounds by simp
  then have "\<exists>x \<in> set allSquares. \<exists>ys. movesFrom b side x = Some ys \<and>
           \<lparr>mv_from = own, mv_to = opp\<rparr> \<in> set ys"
    using ms1 in1 by (intro bexI [of _ "(?r, ?c)"]) simp_all
  then have "\<lparr>mv_from = own, mv_to = opp\<rparr> \<in> set ms"
    using collect_member [OF c2, of "\<lparr>mv_from = own, mv_to = opp\<rparr>"] by simp
  then show ?thesis using ms by blast
qed

text \<open>
  C6. On a 10 by 9 board that holds only the two generals, on one file, the legal moves
  of the side to move contain the move of its general onto the other general's square.
\<close>

theorem flying_general_capture:
  assumes "gridShape (board pos)" "onlyGenerals (board pos) red black"
    and "inBounds (row red) (col red)" "inBounds (row black) (col black)"
    and "col red = col black" "row red \<noteq> row black"
    and "turn pos = ''w'' \<or> turn pos = ''b''"
  shows "\<exists>ms. generateLegalMoves pos = Some ms \<and>
           (if turn pos = ''w'' then \<lparr>mv_from = red, mv_to = black\<rparr>
            else \<lparr>mv_from = black, mv_to = red\<rparr>) \<in> set ms"
proof -
  have cells: "cellAt (board pos) r c =
          Some (if r = row red \<and> c = col red then Some CHR ''K''
                else if r = row black \<and> c = col black then Some CHR ''k''
                else None)" if "inBounds r c" for r c
    using assms(2) that allSquares_inBounds [of r c]
    by (auto simp: onlyGenerals_def list_all_iff)
  show ?thesis
  proof (cases "turn pos = ''w''")
    case True
    have "\<exists>ms. generateLegalMoves \<lparr>board = board pos, turn = ''w''\<rparr> = Some ms \<and>
               \<lparr>mv_from = red, mv_to = black\<rparr> \<in> set ms"
      by (rule flying_capture_side [OF assms(1) _ assms(3,4,5,6)])
         (simp_all add: cells generalOf_def opponent_def)
    moreover have "\<lparr>board = board pos, turn = ''w''\<rparr> = pos" using True by simp
    ultimately show ?thesis using True by simp
  next
    case False
    then have b: "turn pos = ''b''" using assms(7) by simp
    have "\<exists>ms. generateLegalMoves \<lparr>board = board pos, turn = ''b''\<rparr> = Some ms \<and>
               \<lparr>mv_from = black, mv_to = red\<rparr> \<in> set ms"
    proof (rule flying_capture_side [OF assms(1) _ assms(4,3)])
      show "''b'' = ''w'' \<or> ''b'' = ''b''" by simp
      show "col black = col red" using assms(5) by simp
      show "row black \<noteq> row red" using assms(6) by simp
      show "\<And>r c. inBounds r c \<Longrightarrow>
        cellAt (board pos) r c =
          Some (if r = row black \<and> c = col black then Some (generalOf ''b'')
                else if r = row red \<and> c = col red then Some (generalOf (opponent ''b''))
                else None)"
        using cells assms(6) by (auto simp: generalOf_def opponent_def)
    qed
    moreover have "\<lparr>board = board pos, turn = ''b''\<rparr> = pos" using b by simp
    ultimately show ?thesis using b by simp
  qed
qed

theorem flying_general_capture_witness:
  "gridShape (board (parseFen ''4k4/9/9/9/9/9/9/9/9/4K4 b'')) \<and>
   onlyGenerals (board (parseFen ''4k4/9/9/9/9/9/9/9/9/4K4 b''))
     \<lparr>row = 9, col = 4\<rparr> \<lparr>row = 0, col = 4\<rparr> \<and>
   (\<exists>ms. generateLegalMoves (parseFen ''4k4/9/9/9/9/9/9/9/9/4K4 b'') = Some ms \<and>
      \<lparr>mv_from = \<lparr>row = 0, col = 4\<rparr>, mv_to = \<lparr>row = 9, col = 4\<rparr>\<rparr> \<in> set ms)"
proof -
  let ?p = "parseFen ''4k4/9/9/9/9/9/9/9/9/4K4 b''"
  have g: "gridShape (board ?p)" by code_simp
  have o: "onlyGenerals (board ?p) \<lparr>row = 9, col = 4\<rparr> \<lparr>row = 0, col = 4\<rparr>" by code_simp
  have t: "turn ?p = ''b''" by code_simp
  have "\<exists>ms. generateLegalMoves ?p = Some ms \<and>
           (if turn ?p = ''w''
            then \<lparr>mv_from = \<lparr>row = 9, col = 4\<rparr>, mv_to = \<lparr>row = 0, col = 4\<rparr>\<rparr>
            else \<lparr>mv_from = \<lparr>row = 0, col = 4\<rparr>, mv_to = \<lparr>row = 9, col = 4\<rparr>\<rparr>) \<in> set ms"
    by (rule flying_general_capture [OF g o]) (simp_all add: inBounds_def t)
  then have "\<exists>ms. generateLegalMoves ?p = Some ms \<and>
      \<lparr>mv_from = \<lparr>row = 0, col = 4\<rparr>, mv_to = \<lparr>row = 9, col = 4\<rparr>\<rparr> \<in> set ms"
    by (simp add: t)
  then show ?thesis using g o by blast
qed


section \<open>The cannon\<close>

lemma cannonRay_squares:
  "cannonRay b side r c (dr, dc) jumped steps = Some ts \<Longrightarrow> t \<in> set ts \<Longrightarrow>
   \<exists>i \<in> set steps. row t = r + dr * i \<and> col t = c + dc * i"
proof (induction steps arbitrary: jumped ts)
  case Nil
  then show ?case by simp
next
  case (Cons i steps)
  let ?cell = "cellAt b (r + dr * i) (c + dc * i)"
  let ?sq = "\<lparr>row = r + dr * i, col = c + dc * i\<rparr>"
  show ?case
  proof (cases "inBounds (r + dr * i) (c + dc * i)")
    case False
    then show ?thesis using Cons.prems by (simp add: Let_def)
  next
    case True
    then have row: "hasRow b (r + dr * i)"
      using Cons.prems(1) by (auto simp: Let_def split: if_splits)
    consider (slide) "\<not> jumped" "?cell = Some None" | (jump) "\<not> jumped" "?cell \<noteq> Some None"
      | (pass) "jumped" "?cell = Some None" | (land) "jumped" "?cell \<noteq> Some None"
      by blast
    then show ?thesis
    proof cases
      case slide
      then obtain more where more: "cannonRay b side r c (dr, dc) False steps = Some more"
        "ts = ?sq # more"
        using Cons.prems(1) True row by (auto simp: Let_def split: bind_splits)
      then show ?thesis using Cons.IH [OF more(1)] Cons.prems(2) by auto
    next
      case jump
      then have "cannonRay b side r c (dr, dc) True steps = Some ts"
        using Cons.prems(1) True row by (simp add: Let_def)
      then show ?thesis using Cons.IH Cons.prems(2) by auto
    next
      case pass
      then have "cannonRay b side r c (dr, dc) True steps = Some ts"
        using Cons.prems(1) True row by (simp add: Let_def)
      then show ?thesis using Cons.IH Cons.prems(2) by auto
    next
      case land
      then have "ts = [?sq] \<or> ts = []"
        using Cons.prems(1) True row
        by (auto simp: Let_def split: bind_splits option.splits if_splits)
      then show ?thesis using Cons.prems(2) by auto
    qed
  qed
qed

lemma cannonRay_capture:
  assumes "dr \<noteq> 0 \<or> dc \<noteq> 0" "k \<le> 9"
    and "cellAt b (r + dr * k) (c + dc * k) = Some (Some q)" "pieceColor q \<noteq> side"
    and "inBounds (r + dr * k) (c + dc * k)"
    and grid: "gridShape b"
  shows "j \<le> k \<Longrightarrow>
         (\<And>i. j \<le> i \<Longrightarrow> i < k \<Longrightarrow> inBounds (r + dr * i) (c + dc * i)) \<Longrightarrow>
         cannonRay b side r c (dr, dc) jumped [j..9] = Some ts \<Longrightarrow>
         \<lparr>row = r + dr * k, col = c + dc * k\<rparr> \<in> set ts \<longleftrightarrow>
           length (filter (\<lambda>i. occupied b (r + dr * i, c + dc * i)) [j..k - 1])
             = (if jumped then 0 else 1)"
proof (induction "nat (k - j)" arbitrary: j jumped ts)
  case 0
  then have j: "j = k" by simp
  have up: "[k..9] = k # [k + 1..9]" using assms(2) by (simp add: upto_rec1)
  show ?case
  proof (cases jumped)
    case True
    then have "ts = [\<lparr>row = r + dr * k, col = c + dc * k\<rparr>]"
      using "0.prems"(3) j up assms(3,4,5) cellAt_hasRow [OF assms(3)] by (simp add: Let_def)
    then show ?thesis using True j by simp
  next
    case False
    then have rest: "cannonRay b side r c (dr, dc) True [k + 1..9] = Some ts"
      using "0.prems"(3) j up assms(3,5) cellAt_hasRow [OF assms(3)] by (simp add: Let_def)
    have "\<lparr>row = r + dr * k, col = c + dc * k\<rparr> \<notin> set ts"
    proof
      assume "\<lparr>row = r + dr * k, col = c + dc * k\<rparr> \<in> set ts"
      then obtain i where "i \<in> set [k + 1..9]" "r + dr * k = r + dr * i" "c + dc * k = c + dc * i"
        using cannonRay_squares [OF rest] by fastforce
      then show False using assms(1) by auto
    qed
    then show ?thesis using False j by simp
  qed
next
  case (Suc n)
  then have lt: "j < k" by simp
  have up: "[j..9] = j # [j + 1..9]" using lt assms(2) by (simp add: upto_rec1)
  have upk: "[j..k - 1] = j # [j + 1..k - 1]" using lt by (simp add: upto_rec1)
  have ib: "inBounds (r + dr * j) (c + dc * j)" using Suc.prems(2) [of j] lt by simp
  have ne: "\<lparr>row = r + dr * k, col = c + dc * k\<rparr> \<noteq> \<lparr>row = r + dr * j, col = c + dc * j\<rparr>"
    using lt assms(1) by auto
  have IH: "cannonRay b side r c (dr, dc) jm [j + 1..9] = Some us \<Longrightarrow>
        \<lparr>row = r + dr * k, col = c + dc * k\<rparr> \<in> set us \<longleftrightarrow>
          length (filter (\<lambda>i. occupied b (r + dr * i, c + dc * i)) [j + 1..k - 1])
            = (if jm then 0 else 1)" for jm us
  proof (rule Suc.hyps(1))
    show "n = nat (k - (j + 1))" using Suc.hyps(2) by simp
    show "j + 1 \<le> k" using lt by simp
    show "\<And>i. j + 1 \<le> i \<Longrightarrow> i < k \<Longrightarrow> inBounds (r + dr * i) (c + dc * i)"
      using Suc.prems(2) by simp
  qed
  obtain cell where cell: "cellAt b (r + dr * j) (c + dc * j) = Some cell"
    using cellAt_grid [OF grid ib] by blast
  note row = cellAt_hasRow [OF cell]
  show ?case
  proof (cases cell)
    case None
    then have free: "\<not> occupied b (r + dr * j, c + dc * j)" using cell by (simp add: occupied_def)
    show ?thesis
    proof (cases jumped)
      case True
      then have "cannonRay b side r c (dr, dc) True [j + 1..9] = Some ts"
        using Suc.prems(3) up ib cell row None by (simp add: Let_def)
      then show ?thesis using IH [of True ts] True free upk by simp
    next
      case False
      then obtain more where more: "cannonRay b side r c (dr, dc) False [j + 1..9] = Some more"
        "ts = \<lparr>row = r + dr * j, col = c + dc * j\<rparr> # more"
        using Suc.prems(3) up ib cell row None by (auto simp: Let_def split: bind_splits)
      show ?thesis using IH [OF more(1)] more(2) False free upk ne by auto
    qed
  next
    case (Some q')
    then have occ: "occupied b (r + dr * j, c + dc * j)" using cell by (simp add: occupied_def)
    show ?thesis
    proof (cases jumped)
      case True
      then have "ts = (if pieceColor q' \<noteq> side then [\<lparr>row = r + dr * j, col = c + dc * j\<rparr>] else [])"
        using Suc.prems(3) up ib cell row Some by (simp add: Let_def)
      then show ?thesis using True occ upk ne by (auto split: if_splits)
    next
      case False
      then have "cannonRay b side r c (dr, dc) True [j + 1..9] = Some ts"
        using Suc.prems(3) up ib cell row Some by (simp add: Let_def)
      then show ?thesis using IH [of True ts] False occ upk by simp
    qed
  qed
qed


lemma cannonTargets_capture:
  assumes grid: "gridShape b" and orig: "inBounds r c"
    and dir: "(dr, dc) \<in> set [(0, 1), (0, -1), (1, 0), (-1, 0)]"
    and k: "1 \<le> k" "k \<le> 9"
    and dest: "inBounds (r + dr * k) (c + dc * k)"
    and cell: "cellAt b (r + dr * k) (c + dc * k) = Some (Some q)" "pieceColor q \<noteq> side"
  shows "\<exists>ts. cannonTargets b side r c = Some ts \<and>
           (\<lparr>row = r + dr * k, col = c + dc * k\<rparr> \<in> set ts \<longleftrightarrow>
              length (filter (\<lambda>i. occupied b (r + dr * i, c + dc * i)) [1..k - 1]) = 1)"
proof -
  let ?sq = "\<lparr>row = r + dr * k, col = c + dc * k\<rparr>"
  let ?dirs = "[(0, 1), (0, -1), (1, 0), (-1, 0)] :: (int \<times> int) list"
  obtain ts where ts: "collect (\<lambda>d. cannonRay b side r c d False [1..9]) ?dirs = Some ts"
    using cannonTargets_total [OF grid, of side r c] by (auto simp: cannonTargets_def)
  obtain ys0 where ys0: "cannonRay b side r c (dr, dc) False [1..9] = Some ys0"
    using cannonRay_total [OF grid] by blast
  have nz: "dr \<noteq> 0 \<or> dc \<noteq> 0" using dir by auto
  have mid: "inBounds (r + dr * i) (c + dc * i)" if "1 \<le> i" "i < k" for i
    using dir orig dest that by (auto simp: inBounds_def)
  have here: "?sq \<in> set ys0 \<longleftrightarrow>
      length (filter (\<lambda>i. occupied b (r + dr * i, c + dc * i)) [1..k - 1]) = 1"
    using cannonRay_capture [OF nz k(2) cell dest grid k(1) mid ys0] by simp
  have other: "?sq \<notin> set ys"
    if d: "(dr', dc') \<in> set ?dirs" "(dr', dc') \<noteq> (dr, dc)"
      and ys: "cannonRay b side r c (dr', dc') False [1..9] = Some ys" for dr' dc' ys
  proof
    assume "?sq \<in> set ys"
    then obtain i where i: "i \<in> set [1..9]" "r + dr * k = r + dr' * i" "c + dc * k = c + dc' * i"
      using cannonRay_squares [OF ys] by fastforce
    then have "1 \<le> i" by simp
    then show False using i(2,3) d dir k(1) by auto
  qed
  have "?sq \<in> set ts \<longleftrightarrow> ?sq \<in> set ys0"
  proof
    assume "?sq \<in> set ts"
    then obtain d ys where dy: "d \<in> set ?dirs" "cannonRay b side r c d False [1..9] = Some ys"
      "?sq \<in> set ys"
      using collect_member [OF ts, of ?sq] by blast
    obtain dr' dc' where d: "d = (dr', dc')" by (cases d)
    have "(dr', dc') = (dr, dc)" using other [of dr' dc' ys] dy d by blast
    then show "?sq \<in> set ys0" using dy d ys0 by simp
  next
    assume "?sq \<in> set ys0"
    then have "\<exists>d \<in> set ?dirs. \<exists>ys. cannonRay b side r c d False [1..9] = Some ys \<and> ?sq \<in> set ys"
      using dir ys0 by (intro bexI [of _ "(dr, dc)"]) simp_all
    then show "?sq \<in> set ts" using collect_member [OF ts, of ?sq] by simp
  qed
  then show ?thesis using ts here by (simp add: cannonTargets_def)
qed

lemma count_up:
  "length (filter P [a + 1..a + int n]) = length (filter (\<lambda>i. P (a + i)) [1..int n])"
proof (induction n)
  case 0
  then show ?case by simp
next
  case (Suc n)
  have "[a + 1..a + int (Suc n)] = [a + 1..a + int n] @ [a + int n + 1]"
    using upto_rec2 [of "a + 1" "a + int (Suc n)"] by (simp add: add.commute add.left_commute)
  moreover have "[1..int (Suc n)] = [1..int n] @ [int n + 1]"
    using upto_rec2 [of 1 "int (Suc n)"] by (simp add: add.commute)
  ultimately show ?case using Suc by (simp add: add.assoc)
qed

lemma count_down:
  "length (filter P [a - int n..a - 1]) = length (filter (\<lambda>i. P (a - i)) [1..int n])"
proof (induction n)
  case 0
  then show ?case by simp
next
  case (Suc n)
  have "[a - int (Suc n)..a - 1] = (a - int n - 1) # [a - int n..a - 1]"
    using upto_rec1 [of "a - int (Suc n)" "a - 1"] by (simp add: algebra_simps)
  moreover have "[1..int (Suc n)] = [1..int n] @ [int n + 1]"
    using upto_rec2 [of 1 "int (Suc n)"] by (simp add: add.commute)
  ultimately show ?case using Suc by (simp add: algebra_simps)
qed

text \<open>
  C5. On a 10 by 9 board, for a cannon and a square of its rank or file that holds an
  opposing piece: the cannon's pseudo-moves contain that square exactly when one
  square strictly between the two is occupied.
\<close>

theorem cannon_capture:
  assumes "gridShape b" "inBounds r c"
    and "cellAt b r c = Some (Some p)" "toLowerCase p = CHR ''c''"
    and "inBounds tr tc" "tr = r \<or> tc = c" "(tr, tc) \<noteq> (r, c)"
    and "cellAt b tr tc = Some (Some q)" "pieceColor q \<noteq> pieceColor p"
  shows "\<exists>ts. generatePieceMoves b r c p = Some ts \<and>
           (\<lparr>row = tr, col = tc\<rparr> \<in> set ts \<longleftrightarrow> occupiedBetween b r c tr tc = 1)"
proof -
  have gen: "generatePieceMoves b r c p = cannonTargets b (pieceColor p) r c"
    using assms(4) by (simp add: generatePieceMoves_def)
  have rc: "0 \<le> r" "r < 10" "0 \<le> c" "c < 9" and t: "0 \<le> tr" "tr < 10" "0 \<le> tc" "tc < 9"
    using assms(2,5) by (auto simp: inBounds_def)
  consider (right) "tr = r" "c < tc" | (left) "tr = r" "tc < c"
    | (down) "tc = c" "r < tr" | (up) "tc = c" "tr < r"
    using assms(6,7) by fastforce
  then show ?thesis
  proof cases
    case right
    define k where "k = tc - c"
    have k: "1 \<le> k" "k \<le> 9" "r + 0 * k = tr" "c + 1 * k = tc"
      using right rc t by (simp_all add: k_def)
    have cnt: "occupiedBetween b r c tr tc
               = length (filter (\<lambda>i. occupied b (r + 0 * i, c + 1 * i)) [1..k - 1])"
      using right count_up [of "\<lambda>j. occupied b (r, j)" c "nat (k - 1)"] k(1)
      by (simp add: occupiedBetween_def squaresBetween_def comp_def k_def)
    show ?thesis
      using cannonTargets_capture [OF assms(1,2) _ k(1,2), of 0 1 q "pieceColor p"]
        assms(5,8,9) k(3,4) gen cnt by simp
  next
    case left
    define k where "k = c - tc"
    have k: "1 \<le> k" "k \<le> 9" "r + 0 * k = tr" "c + (-1) * k = tc"
      using left rc t by (simp_all add: k_def)
    have cnt: "occupiedBetween b r c tr tc
               = length (filter (\<lambda>i. occupied b (r + 0 * i, c + (-1) * i)) [1..k - 1])"
      using left count_down [of "\<lambda>j. occupied b (r, j)" c "nat (k - 1)"] k(1)
      by (simp add: occupiedBetween_def squaresBetween_def comp_def k_def)
    show ?thesis
      using cannonTargets_capture [OF assms(1,2) _ k(1,2), of 0 "-1" q "pieceColor p"]
        assms(5,8,9) k(3,4) gen cnt by simp
  next
    case down
    define k where "k = tr - r"
    have k: "1 \<le> k" "k \<le> 9" "r + 1 * k = tr" "c + 0 * k = tc"
      using down rc t by (simp_all add: k_def)
    have cnt: "occupiedBetween b r c tr tc
               = length (filter (\<lambda>i. occupied b (r + 1 * i, c + 0 * i)) [1..k - 1])"
      using down count_up [of "\<lambda>i. occupied b (i, c)" r "nat (k - 1)"] k(1)
      by (simp add: occupiedBetween_def squaresBetween_def comp_def k_def)
    show ?thesis
      using cannonTargets_capture [OF assms(1,2) _ k(1,2), of 1 0 q "pieceColor p"]
        assms(5,8,9) k(3,4) gen cnt by simp
  next
    case up
    define k where "k = r - tr"
    have k: "1 \<le> k" "k \<le> 9" "r + (-1) * k = tr" "c + 0 * k = tc"
      using up rc t by (simp_all add: k_def)
    have cnt: "occupiedBetween b r c tr tc
               = length (filter (\<lambda>i. occupied b (r + (-1) * i, c + 0 * i)) [1..k - 1])"
      using up count_down [of "\<lambda>i. occupied b (i, c)" r "nat (k - 1)"] k(1)
      by (simp add: occupiedBetween_def squaresBetween_def comp_def k_def)
    show ?thesis
      using cannonTargets_capture [OF assms(1,2) _ k(1,2), of "-1" 0 q "pieceColor p"]
        assms(5,8,9) k(3,4) gen cnt by simp
  qed
qed


theorem cannon_capture_witness:
  "gridShape (board (parseFen ''1r7/1n7/1c7/9/9/9/9/1C7/9/9 w'')) \<and>
   (\<exists>ts. generatePieceMoves (board (parseFen ''1r7/1n7/1c7/9/9/9/9/1C7/9/9 w'')) 7 1 CHR ''C''
            = Some ts \<and>
          \<lparr>row = 1, col = 1\<rparr> \<in> set ts \<and> \<lparr>row = 2, col = 1\<rparr> \<notin> set ts \<and>
          \<lparr>row = 0, col = 1\<rparr> \<notin> set ts) \<and>
   occupiedBetween (board (parseFen ''1r7/1n7/1c7/9/9/9/9/1C7/9/9 w'')) 7 1 2 1 = 0 \<and>
   occupiedBetween (board (parseFen ''1r7/1n7/1c7/9/9/9/9/1C7/9/9 w'')) 7 1 1 1 = 1 \<and>
   occupiedBetween (board (parseFen ''1r7/1n7/1c7/9/9/9/9/1C7/9/9 w'')) 7 1 0 1 = 2"
proof -
  let ?b = "board (parseFen ''1r7/1n7/1c7/9/9/9/9/1C7/9/9 w'')"
  have g: "gridShape ?b" by code_simp
  have p: "cellAt ?b 7 1 = Some (Some CHR ''C'')" "toLowerCase CHR ''C'' = CHR ''c''"
    by code_simp+
  have ib: "inBounds 7 1" "inBounds 2 1" "inBounds 1 1" "inBounds 0 1"
    by (simp_all add: inBounds_def)
  have q: "cellAt ?b 2 1 = Some (Some CHR ''c'')" "cellAt ?b 1 1 = Some (Some CHR ''n'')"
    "cellAt ?b 0 1 = Some (Some CHR ''r'')"
    "pieceColor CHR ''c'' \<noteq> pieceColor CHR ''C''" "pieceColor CHR ''n'' \<noteq> pieceColor CHR ''C''"
    "pieceColor CHR ''r'' \<noteq> pieceColor CHR ''C''"
    by code_simp+
  have o: "occupiedBetween ?b 7 1 2 1 = 0" "occupiedBetween ?b 7 1 1 1 = 1"
    "occupiedBetween ?b 7 1 0 1 = 2"
    by code_simp+
  obtain ts where ts: "generatePieceMoves ?b 7 1 CHR ''C'' = Some ts"
    "\<lparr>row = 1, col = 1\<rparr> \<in> set ts \<longleftrightarrow> occupiedBetween ?b 7 1 1 1 = 1"
    using cannon_capture [OF g ib(1) p ib(3) _ _ q(2,5)] by auto
  have zero: "\<lparr>row = 2, col = 1\<rparr> \<in> set ts \<longleftrightarrow> occupiedBetween ?b 7 1 2 1 = 1"
    using cannon_capture [OF g ib(1) p ib(2) _ _ q(1,4)] ts(1) by auto
  have two: "\<lparr>row = 0, col = 1\<rparr> \<in> set ts \<longleftrightarrow> occupiedBetween ?b 7 1 0 1 = 1"
    using cannon_capture [OF g ib(1) p ib(4) _ _ q(3,6)] ts(1) by auto
  have "\<lparr>row = 1, col = 1\<rparr> \<in> set ts \<and> \<lparr>row = 2, col = 1\<rparr> \<notin> set ts \<and>
        \<lparr>row = 0, col = 1\<rparr> \<notin> set ts"
    using ts(2) zero two o by simp
  then show ?thesis using g ts(1) o by blast
qed


section \<open>Move tokens\<close>

lemma indexOf_FILES:
  assumes "ch \<in> set FILES"
  shows "0 \<le> indexOf FILES ch \<and> indexOf FILES ch < 9"
proof -
  have "ch \<in> {CHR ''a'', CHR ''b'', CHR ''c'', CHR ''d'', CHR ''e'', CHR ''f'', CHR ''g'',
              CHR ''h'', CHR ''i''}"
    using assms by (simp add: FILES_def)
  then show ?thesis by (elim insertE emptyE; simp add: FILES_def)
qed

lemma parseIntAt_digit:
  "i < length s \<Longrightarrow> isDigit (s ! i) \<Longrightarrow>
   \<exists>n. parseIntAt s i = Some n \<and> 0 \<le> n \<and> n \<le> 9"
  by (auto simp: parseIntAt_def isDigit_def)

section \<open>Replaying a move list\<close>

text \<open>
  \<open>applyMove\<close> outside the stored cells, evaluated: a write beyond the end of a row
  lengthens it, a read at a column that is not stored moves \<open>undefined\<close>, a write at a
  negative column leaves the cells as they are, a missing row raises, and \<open>toFen\<close>
  prints \<open>undefined\<close> as that word.
\<close>

lemma applyMove_outside_stored_cells:
  "applyMove (parseFen ''R3/9 w'') \<lparr>row = 0, col = 0\<rparr> \<lparr>row = 0, col = 6\<rparr> =
     Some \<lparr>board = [[Some None, Some None, Some None, Some None, None, None, Some (Some CHR ''R'')],
                     replicate 9 (Some None)],
           turn = ''b''\<rparr>"
  "applyMove (parseFen ''R3/9 w'') \<lparr>row = 0, col = -1\<rparr> \<lparr>row = 1, col = 2\<rparr> =
     Some \<lparr>board = [[Some (Some CHR ''R''), Some None, Some None, Some None],
                     [Some None, Some None, None, Some None, Some None, Some None, Some None,
                      Some None, Some None]],
           turn = ''b''\<rparr>"
  "applyMove (parseFen ''R3/9 w'') \<lparr>row = 0, col = 0\<rparr> \<lparr>row = 1, col = -1\<rparr> =
     Some \<lparr>board = [[Some None, Some None, Some None, Some None], replicate 9 (Some None)],
           turn = ''b''\<rparr>"
  "applyMove (parseFen ''R3/9 w'') \<lparr>row = 0, col = 0\<rparr> \<lparr>row = 2, col = 0\<rparr> = None"
  "toFen \<lparr>board = [[Some None, Some None, None, Some (Some CHR ''R'')]], turn = ''b''\<rparr> =
     ''2undefinedR b - - 0 1''"
  by code_simp+

lemma uciToSquare_ranked:
  assumes "1 < length u" "isDigit (u ! 1)"
  shows "\<exists>sq. uciToSquare u = Some sq \<and> 0 \<le> row sq \<and> row sq < 10"
proof -
  obtain n where n: "parseIntAt u 1 = Some n" "0 \<le> n" "n \<le> 9"
    using parseIntAt_digit [of 1 u] assms by auto
  then show ?thesis by (simp add: uciToSquare_def)
qed

lemma parseUciMove_ranked:
  assumes "rankedToken m"
  shows "\<exists>sq1 sq2. parseUciMove m = Some (sq1, sq2) \<and>
           0 \<le> row sq1 \<and> row sq1 < 10 \<and> 0 \<le> row sq2 \<and> row sq2 < 10"
proof -
  have len: "3 < length m" and ok: "isDigit (m ! 1)" "isDigit (m ! 3)"
    using assms by (auto simp: rankedToken_def)
  obtain sq1 where f: "uciToSquare (take 2 m) = Some sq1" "0 \<le> row sq1" "row sq1 < 10"
    using uciToSquare_ranked [of "take 2 m"] len ok(1) by auto
  have "take 2 (drop 2 m) ! 1 = m ! 3" using len by (simp add: numeral_3_eq_3)
  then obtain sq2 where t: "uciToSquare (take 2 (drop 2 m)) = Some sq2" "0 \<le> row sq2" "row sq2 < 10"
    using uciToSquare_ranked [of "take 2 (drop 2 m)"] len ok(2) by auto
  show ?thesis using f t by (simp add: parseUciMove_def)
qed

lemma setCell_rows:
  "hasRow b r \<Longrightarrow> \<exists>b'. setCell b r c v = Some b' \<and> length b' = length b"
  by (simp add: setCell_def Let_def)

lemma movePiece_rows:
  assumes "hasRow b (row from)" "hasRow b (row to)"
  shows "\<exists>b'. movePiece b from to = Some b' \<and> length b' = length b"
proof -
  obtain b1 where b1: "setCell b (row to) (col to) (cellAt b (row from) (col from)) = Some b1"
    "length b1 = length b"
    using setCell_rows [OF assms(2)] by blast
  have "hasRow b1 (row from)" using assms(1) b1(2) by (simp add: hasRow_def)
  then obtain b2 where "setCell b1 (row from) (col from) (Some None) = Some b2"
    "length b2 = length b1"
    using setCell_rows by blast
  then show ?thesis using b1 assms(1) by (simp add: movePiece_def)
qed

lemma applyMove_rows:
  assumes "hasRow (board pos) (row from)" "hasRow (board pos) (row to)"
  shows "\<exists>pos'. applyMove pos from to = Some pos' \<and> length (board pos') = length (board pos)"
  using movePiece_rows [OF assms] by (auto simp: applyMove_def)

lemma playMove_ranked:
  assumes "10 \<le> length (board pos)" "rankedToken m"
  shows "\<exists>pos'. playMove pos m = Some pos' \<and> 10 \<le> length (board pos') \<and>
           (\<exists>sq1 sq2. parseUciMove m = Some (sq1, sq2) \<and> applyMove pos sq1 sq2 = Some pos')"
proof -
  obtain sq1 sq2 where sq: "parseUciMove m = Some (sq1, sq2)"
    "0 \<le> row sq1" "row sq1 < 10" "0 \<le> row sq2" "row sq2 < 10"
    using parseUciMove_ranked [OF assms(2)] by blast
  have "hasRow (board pos) (row sq1)" "hasRow (board pos) (row sq2)"
    using sq(2-5) assms(1) by (simp_all add: hasRow_def)
  then obtain pos' where "applyMove pos sq1 sq2 = Some pos'"
    "length (board pos') = length (board pos)"
    using applyMove_rows by blast
  then show ?thesis using sq(1) assms(1) by (simp add: playMove_def)
qed

lemma replay_positionAfter:
  "10 \<le> length (board pos) \<Longrightarrow> list_all rankedToken moves \<Longrightarrow>
   \<exists>pos' added. replay pos history moves = Some (pos', history @ added) \<and>
      positionAfter pos moves = Some pos' \<and> map uci added = moves \<and>
      map (\<lambda>r. Some (fen r)) added =
        map (\<lambda>k. map_option toFen (positionAfter pos (take (Suc k) moves))) [0..<length moves]"
proof (induction moves arbitrary: pos history)
  case Nil
  then show ?case by simp
next
  case (Cons m moves)
  obtain pos1 sq1 sq2 where p1: "playMove pos m = Some pos1" "10 \<le> length (board pos1)"
    "parseUciMove m = Some (sq1, sq2)" "applyMove pos sq1 sq2 = Some pos1"
    using playMove_ranked [of pos m] Cons.prems by auto
  let ?rec = "\<lparr>uci = m, fen = toFen pos1\<rparr>"
  obtain pos' added where r:
    "replay pos1 (history @ [?rec]) moves = Some (pos', (history @ [?rec]) @ added)"
    "positionAfter pos1 moves = Some pos'" "map uci added = moves"
    "map (\<lambda>r. Some (fen r)) added =
       map (\<lambda>k. map_option toFen (positionAfter pos1 (take (Suc k) moves))) [0..<length moves]"
    using Cons.IH [OF p1(2), of "history @ [?rec]"] Cons.prems(2) by auto
  have idx: "[0..<length (m # moves)] = 0 # map Suc [0..<length moves]"
    using upt_conv_Cons [of 0 "Suc (length moves)"]
    by (simp only: map_Suc_upt length_Cons zero_less_Suc)
  have a: "replay pos history (m # moves) = Some (pos', history @ ?rec # added)"
    using p1(3,4) r(1) by simp
  have b: "positionAfter pos (m # moves) = Some pos'" using p1(1) r(2) by simp
  have c: "map uci (?rec # added) = m # moves" using r(3) by simp
  have d: "map (\<lambda>r. Some (fen r)) (?rec # added) =
      map (\<lambda>k. map_option toFen (positionAfter pos (take (Suc k) (m # moves))))
        [0..<length (m # moves)]"
    unfolding idx using p1(1) r(4) by (simp add: comp_def)
  show ?case by (rule exI [of _ pos'], rule exI [of _ "?rec # added"]) (simp only: a b c d)
qed

text \<open>
  C7, as the code has it. \<open>loadMoves\<close> makes no legality test. From a base text of at
  least ten ranks, every list of move tokens whose second and fourth characters are
  digits is replayed to its end: the new Position is the one reached by applying all
  the moves in order with \<open>applyMove\<close>, the rebuilt history has one record per given
  move, in order, the record of move \<open>k\<close> carrying that move and the \<open>toFen\<close> text of the
  Position reached after the moves up to it, legal or not; the current index is at the
  last record and the game-over label is cleared.
\<close>

theorem loadMoves_replays_every_move:
  assumes "fen0 = (case startFen of None \<Rightarrow> baseFen st
                   | Some f \<Rightarrow> if f \<noteq> [] then f else baseFen st)"
    and "10 \<le> length (board (parseFen fen0))" "list_all rankedToken moves"
  shows "\<exists>st'. loadMoves moves startFen st = Some st' \<and>
           positionAfter (parseFen fen0) moves = Some (position st') \<and>
           map uci (moveHistory st') = moves \<and>
           map (\<lambda>r. Some (fen r)) (moveHistory st') =
             map (\<lambda>k. map_option toFen (positionAfter (parseFen fen0) (take (Suc k) moves)))
               [0..<length moves] \<and>
           currentIndex st' = int (length moves) - 1 \<and>
           baseFen st' = fen0 \<and> gameOver st' = None"
proof -
  obtain pos' added where r: "replay (parseFen fen0) [] moves = Some (pos', [] @ added)"
    "positionAfter (parseFen fen0) moves = Some pos'" "map uci added = moves"
    "map (\<lambda>r. Some (fen r)) added =
       map (\<lambda>k. map_option toFen (positionAfter (parseFen fen0) (take (Suc k) moves)))
         [0..<length moves]"
    using replay_positionAfter [OF assms(2,3), of "[]"] by blast
  have "length added = length moves" using r(3) by (metis length_map)
  then show ?thesis using r assms(1) by (simp add: loadMoves_def)
qed

theorem loadMoves_replays_every_move_witness:
  "10 \<le> length (board (parseFen ''3k5/9/9/9/9/9/9/9/9/4K4 w - - 0 1'')) \<and>
   list_all rankedToken [''e0e2'', ''x0e1''] \<and>
   (\<exists>st'. loadMoves [''e0e2'', ''x0e1''] (Some ''3k5/9/9/9/9/9/9/9/9/4K4 w - - 0 1'') initialGame
            = Some st' \<and>
          positionAfter (parseFen ''3k5/9/9/9/9/9/9/9/9/4K4 w - - 0 1'') [''e0e2'', ''x0e1'']
            = Some (position st') \<and>
          map uci (moveHistory st') = [''e0e2'', ''x0e1''] \<and>
          map fen (moveHistory st') =
            [''3k5/9/9/9/9/9/9/4K4/9/9 b - - 0 1'',
             ''3k5/9/9/9/9/9/9/4K4/4undefined4/9 w - - 0 1''] \<and>
          currentIndex st' = 1 \<and>
          baseFen st' = ''3k5/9/9/9/9/9/9/9/9/4K4 w - - 0 1'' \<and> gameOver st' = None)"
proof -
  let ?f = "''3k5/9/9/9/9/9/9/9/9/4K4 w - - 0 1''"
  let ?ms = "[''e0e2'', ''x0e1'']"
  have g: "10 \<le> length (board (parseFen ?f))" by code_simp
  have v: "list_all rankedToken ?ms" by code_simp
  have f: "?f = (case Some ?f of None \<Rightarrow> baseFen initialGame
                 | Some f \<Rightarrow> if f \<noteq> [] then f else baseFen initialGame)"
    by simp
  have first: "map_option toFen (positionAfter (parseFen ?f) [''e0e2''])
                 = Some ''3k5/9/9/9/9/9/9/4K4/9/9 b - - 0 1''"
    by code_simp
  have second: "map_option toFen (positionAfter (parseFen ?f) ?ms)
                  = Some ''3k5/9/9/9/9/9/9/4K4/4undefined4/9 w - - 0 1''"
    by code_simp
  have idx: "[0..<length ?ms] = [0, 1]" by (simp add: upt_rec)
  from loadMoves_replays_every_move [OF f g v]
  obtain st' where st: "loadMoves ?ms (Some ?f) initialGame = Some st'"
    "positionAfter (parseFen ?f) ?ms = Some (position st')"
    "map uci (moveHistory st') = ?ms"
    "map (\<lambda>r. Some (fen r)) (moveHistory st') =
       map (\<lambda>k. map_option toFen (positionAfter (parseFen ?f) (take (Suc k) ?ms)))
         [0..<length ?ms]"
    "currentIndex st' = int (length ?ms) - 1" "baseFen st' = ?f" "gameOver st' = None"
    by (elim exE conjE)
  have "map (\<lambda>r. Some (fen r)) (moveHistory st') =
          [Some ''3k5/9/9/9/9/9/9/4K4/9/9 b - - 0 1'',
           Some ''3k5/9/9/9/9/9/9/4K4/4undefined4/9 w - - 0 1'']"
    using st(4) first second unfolding idx by simp
  then have texts: "map fen (moveHistory st') =
          [''3k5/9/9/9/9/9/9/4K4/9/9 b - - 0 1'',
           ''3k5/9/9/9/9/9/9/4K4/4undefined4/9 w - - 0 1'']"
    by (auto simp: map_eq_Cons_conv)
  have "currentIndex st' = 1" using st(5) by simp
  have body: "loadMoves ?ms (Some ?f) initialGame = Some st' \<and>
        positionAfter (parseFen ?f) ?ms = Some (position st') \<and>
        map uci (moveHistory st') = ?ms \<and>
        map fen (moveHistory st') =
          [''3k5/9/9/9/9/9/9/4K4/9/9 b - - 0 1'',
           ''3k5/9/9/9/9/9/9/4K4/4undefined4/9 w - - 0 1''] \<and>
        currentIndex st' = 1 \<and> baseFen st' = ?f \<and> gameOver st' = None"
    using st(1,2,3,6,7) texts \<open>currentIndex st' = 1\<close> by (intro conjI)
  show ?thesis
    by (rule conjI [OF g], rule conjI [OF v], rule exI [of _ st'], rule body)
qed

text \<open>
  C7, as the claim states it, fails: the general's two-square jump e0e2 is not legal,
  yet \<open>loadMoves\<close> applies it and records it, where the legal prefix is empty.
\<close>

theorem loadMoves_applies_illegal_move:
  "isLegalMove (parseFen ''3k5/9/9/9/9/9/9/9/9/4K4 w - - 0 1'')
     \<lparr>row = 9, col = 4\<rparr> \<lparr>row = 7, col = 4\<rparr> = Some False \<and>
   parseUciMove ''e0e2'' = Some (\<lparr>row = 9, col = 4\<rparr>, \<lparr>row = 7, col = 4\<rparr>) \<and>
   legalPrefix (parseFen ''3k5/9/9/9/9/9/9/9/9/4K4 w - - 0 1'') [''e0e2''] = [] \<and>
   loadMoves [''e0e2''] (Some ''3k5/9/9/9/9/9/9/9/9/4K4 w - - 0 1'') initialGame =
     Some \<lparr>baseFen = ''3k5/9/9/9/9/9/9/9/9/4K4 w - - 0 1'',
           position = parseFen ''3k5/9/9/9/9/9/9/4K4/9/9 b - - 0 1'',
           moveHistory = [\<lparr>uci = ''e0e2'', fen = ''3k5/9/9/9/9/9/9/4K4/9/9 b - - 0 1''\<rparr>],
           currentIndex = 0, gameOver = None\<rparr>"
  by code_simp


section \<open>Positional notation\<close>

lemma indexOf_FILES_code:
  assumes "ch \<in> set FILES"
  shows "int (of_char ch) - 97 = indexOf FILES ch"
proof -
  have "ch \<in> {CHR ''a'', CHR ''b'', CHR ''c'', CHR ''d'', CHR ''e'', CHR ''f'', CHR ''g'',
              CHR ''h'', CHR ''i''}"
    using assms by (simp add: FILES_def)
  then show ?thesis by (elim insertE emptyE; simp add: FILES_def)
qed

lemma token_chars:
  assumes "validToken u"
  shows "take 2 u ! 0 = u ! 0" "take 2 u ! 1 = u ! 1"
    "take 2 (drop 2 u) ! 0 = u ! 2" "take 2 (drop 2 u) ! 1 = u ! 3"
    "length (take 2 u) = 2" "length (take 2 (drop 2 u)) = 2"
  using assms by (simp_all add: validToken_def numeral_3_eq_3)

lemma token_parts:
  assumes "validToken u" "parseUciMove u = Some (sq1, sq2)"
  shows "charCodeAt u 0 = Some (97 + col sq1)" "parseIntAt u 1 = Some (9 - row sq1)"
    "charCodeAt u 2 = Some (97 + col sq2)" "parseIntAt u 3 = Some (9 - row sq2)"
    "inBounds (row sq1) (col sq1)" "inBounds (row sq2) (col sq2)"
proof -
  have len: "length u = 4" and ok: "u ! 0 \<in> set FILES" "isDigit (u ! 1)"
    "u ! 2 \<in> set FILES" "isDigit (u ! 3)"
    using assms(1) by (auto simp: validToken_def)
  obtain n1 where n1: "parseIntAt u 1 = Some n1" "0 \<le> n1" "n1 \<le> 9"
    using parseIntAt_digit [of 1 u] len ok(2) by auto
  obtain n2 where n2: "parseIntAt u 3 = Some n2" "0 \<le> n2" "n2 \<le> 9"
    using parseIntAt_digit [of 3 u] len ok(4) by auto
  have p1: "parseIntAt (take 2 u) 1 = Some n1"
    using n1(1) token_chars [OF assms(1)] len by (simp add: parseIntAt_def split: if_splits)
  have p2: "parseIntAt (take 2 (drop 2 u)) 1 = Some n2"
    using n2(1) token_chars [OF assms(1)] len by (simp add: parseIntAt_def split: if_splits)
  have ne: "take 2 u \<noteq> []" "take 2 (drop 2 u) \<noteq> []" using len by auto
  have sq1: "sq1 = \<lparr>row = 9 - n1, col = indexOf FILES (u ! 0)\<rparr>"
    and sq2: "sq2 = \<lparr>row = 9 - n2, col = indexOf FILES (u ! 2)\<rparr>"
    using assms(2) p1 p2 ne token_chars(1,3) [OF assms(1)]
    by (auto simp: parseUciMove_def uciToSquare_def split: bind_splits)
  show "charCodeAt u 0 = Some (97 + col sq1)"
    using sq1 len indexOf_FILES_code [OF ok(1)] by (simp add: charCodeAt_def)
  show "charCodeAt u 2 = Some (97 + col sq2)"
    using sq2 len indexOf_FILES_code [OF ok(3)] by (simp add: charCodeAt_def)
  show "parseIntAt u 1 = Some (9 - row sq1)" using sq1 n1 by simp
  show "parseIntAt u 3 = Some (9 - row sq2)" using sq2 n2 by simp
  show "inBounds (row sq1) (col sq1)"
    using sq1 n1 indexOf_FILES [OF ok(1)] by (simp add: inBounds_def)
  show "inBounds (row sq2) (col sq2)"
    using sq2 n2 indexOf_FILES [OF ok(3)] by (simp add: inBounds_def)
qed

lemma digitAt_glyph:
  assumes "1 \<le> n" "n \<le> 9"
  shows "digitAt (if red then RED_DIGITS else BLACK_DIGITS) (Some n) = digitGlyph red n"
proof -
  have "n \<in> {1, 2, 3, 4, 5, 6, 7, 8, 9}"
    using assms by (simp; arith)
  then show ?thesis
    by (auto simp: digitAt_def digitGlyph_def RED_DIGITS_def BLACK_DIGITS_def)
qed

lemma piece_name: "isPieceChar piece \<Longrightarrow> \<exists>name. map_of PIECE_NAMES piece = Some name"
  by (auto simp: isPieceChar_def PIECE_NAMES_def)

text \<open>
  C8. For a Position, a move token between two squares of the board and the piece on
  its origin, the translator's text is the piece name, the side-relative origin file,
  the action glyph (lateral exactly when the rank does not change, otherwise advance or
  retreat by the mover's forward direction) and the quantity (ranks traversed for a
  chariot, cannon, general or soldier that changes rank, the side-relative destination
  file otherwise), in the mover's digit set.
\<close>

theorem notation_matches_spec:
  assumes "wf_position pos" "validToken u" "parseUciMove u = Some (origin, dest)"
    and "cellAt (board pos) (row origin) (col origin) = Some (Some piece)"
  shows "uciToChineseNotation u (toFen pos) = Some (positionalNotation piece origin dest)"
proof -
  note parts = token_parts [OF assms(2,3)]
  have grid: "gridShape (board pos)" using assms(1) by (simp add: wf_position_def wf_board_def)
  have f: "0 \<le> col origin" "col origin < 9" "0 \<le> row origin" "row origin < 10"
    and t: "0 \<le> col dest" "col dest < 9" "0 \<le> row dest" "row dest < 10"
    using parts(5,6) by (auto simp: inBounds_def)
  have len: "length (board pos) = 10" "length (board pos ! nat (row origin)) = 9"
    using grid f by (simp_all add: gridShape_def list_all_length)
  note cell = assms(4)
  have "wf_cell (Some (Some piece))"
    using cellAt_wf_cell [OF _ assms(4)] assms(1) by (simp add: wf_position_def)
  then obtain name where name: "map_of PIECE_NAMES piece = Some name"
    using piece_name by (auto simp: wf_cell_def)
  have orig: "digitAt (if isRedPiece piece then RED_DIGITS else BLACK_DIGITS)
                (Some (if isRedPiece piece then 9 - col origin else col origin + 1))
              = digitGlyph (isRedPiece piece) (sideRelativeFile (isRedPiece piece) (col origin))"
    using digitAt_glyph [of "sideRelativeFile (isRedPiece piece) (col origin)" "isRedPiece piece"] f
    by (simp add: sideRelativeFile_def)
  have dst: "digitAt (if isRedPiece piece then RED_DIGITS else BLACK_DIGITS)
                (Some (if isRedPiece piece then 9 - col dest else col dest + 1))
              = digitGlyph (isRedPiece piece) (sideRelativeFile (isRedPiece piece) (col dest))"
    using digitAt_glyph [of "sideRelativeFile (isRedPiece piece) (col dest)" "isRedPiece piece"] t
    by (simp add: sideRelativeFile_def)
  have ranks: "row origin \<noteq> row dest \<Longrightarrow>
               digitAt (if isRedPiece piece then RED_DIGITS else BLACK_DIGITS)
                 (Some \<bar>row dest - row origin\<bar>)
               = digitGlyph (isRedPiece piece) \<bar>row dest - row origin\<bar>"
    using digitAt_glyph [of "\<bar>row dest - row origin\<bar>" "isRedPiece piece"] f t by simp
  show ?thesis
  proof (cases "row origin = row dest")
    case True
    then show ?thesis
      using parts(1-4) parseFen_toFen_wf [OF assms(1)] f len cell name orig dst
      by (simp add: uciToChineseNotation_def positionalNotation_def actionGlyph_def
            quantityGlyph_def lateral_def Let_def)
  next
    case False
    then show ?thesis
      using parts(1-4) parseFen_toFen_wf [OF assms(1)] f len cell name orig dst ranks
      by (auto simp: uciToChineseNotation_def positionalNotation_def actionGlyph_def
            quantityGlyph_def advance_def retreat_def countsRanks_def Let_def)
  qed
qed

theorem notation_matches_spec_witness:
  "wf_position (parseFen STARTING_FEN) \<and>
   uciToChineseNotation ''b2e2'' (toFen (parseFen STARTING_FEN))
     = Some [0x70AE, 0x516B, 0x5E73, 0x4E94] \<and>
   uciToChineseNotation ''h9g7'' (toFen (parseFen STARTING_FEN))
     = Some [0x9A6C, 56, 0x8FDB, 55] \<and>
   uciToChineseNotation ''a0a1'' (toFen (parseFen STARTING_FEN))
     = Some [0x8F66, 0x4E5D, 0x8FDB, 0x4E00]"
proof -
  let ?p = "parseFen STARTING_FEN"
  have wf: "wf_position ?p" by code_simp
  have v: "validToken ''b2e2''" "validToken ''h9g7''" "validToken ''a0a1''"
    by code_simp+
  have m: "parseUciMove ''b2e2'' = Some (\<lparr>row = 7, col = 1\<rparr>, \<lparr>row = 7, col = 4\<rparr>)"
    "parseUciMove ''h9g7'' = Some (\<lparr>row = 0, col = 7\<rparr>, \<lparr>row = 2, col = 6\<rparr>)"
    "parseUciMove ''a0a1'' = Some (\<lparr>row = 9, col = 0\<rparr>, \<lparr>row = 8, col = 0\<rparr>)"
    by code_simp+
  have cells: "cellAt (board ?p) 7 1 = Some (Some CHR ''C'')"
    "cellAt (board ?p) 0 7 = Some (Some CHR ''n'')"
    "cellAt (board ?p) 9 0 = Some (Some CHR ''R'')"
    by code_simp+
  have ev: "toLowerCase CHR ''C'' = CHR ''c''" "toLowerCase CHR ''n'' = CHR ''n''"
    "toLowerCase CHR ''R'' = CHR ''r''"
    "isRedPiece CHR ''C''" "\<not> isRedPiece CHR ''n''" "isRedPiece CHR ''R''"
    by code_simp+
  have spec: "positionalNotation CHR ''C'' \<lparr>row = 7, col = 1\<rparr> \<lparr>row = 7, col = 4\<rparr>
                = [0x70AE, 0x516B, 0x5E73, 0x4E94]"
    "positionalNotation CHR ''n'' \<lparr>row = 0, col = 7\<rparr> \<lparr>row = 2, col = 6\<rparr>
                = [0x9A6C, 56, 0x8FDB, 55]"
    "positionalNotation CHR ''R'' \<lparr>row = 9, col = 0\<rparr> \<lparr>row = 8, col = 0\<rparr>
                = [0x8F66, 0x4E5D, 0x8FDB, 0x4E00]"
    using ev
    by (simp_all add: positionalNotation_def PIECE_NAMES_def digitGlyph_def sideRelativeFile_def
          actionGlyph_def quantityGlyph_def countsRanks_def RED_DIGITS_def lateral_def
          advance_def retreat_def)
  have a: "uciToChineseNotation ''b2e2'' (toFen ?p)
           = Some (positionalNotation CHR ''C'' \<lparr>row = 7, col = 1\<rparr> \<lparr>row = 7, col = 4\<rparr>)"
    by (rule notation_matches_spec [OF wf v(1) m(1)]) (simp add: cells)
  have b: "uciToChineseNotation ''h9g7'' (toFen ?p)
           = Some (positionalNotation CHR ''n'' \<lparr>row = 0, col = 7\<rparr> \<lparr>row = 2, col = 6\<rparr>)"
    by (rule notation_matches_spec [OF wf v(2) m(2)]) (simp add: cells)
  have c: "uciToChineseNotation ''a0a1'' (toFen ?p)
           = Some (positionalNotation CHR ''R'' \<lparr>row = 9, col = 0\<rparr> \<lparr>row = 8, col = 0\<rparr>)"
    by (rule notation_matches_spec [OF wf v(3) m(3)]) (simp add: cells)
  show ?thesis using wf a b c spec by simp
qed

end
